theory Spec2Isabelle
  imports Main "HOL-Library.Word"
begin

section \<open>The indexer of the text reader (Source/Readers/ReaderLib/Indexer.cpp)\<close>

text \<open>
  Bytes are \<^typ>\<open>char\<close>, the file and the keys are \<^typ>\<open>string\<close>. \<open>size_t\<close> is a
  64-bit word. File offsets (\<open>int64_t\<close>) are \<^typ>\<open>int\<close>: the theorems about offsets assume
  a file shorter than \<open>2 ^ 63\<close> bytes, where no offset wraps.
\<close>

type_synonym size_t = "64 word"

definition ROW_DELIMITER :: char where
  "ROW_DELIMITER = CHR 0x0A"

subsection \<open>The C library\<close>

text \<open>
  \<open>isdigit\<close> and \<open>isspace\<close> in the "C" locale; \<open>std::to_string\<close> of a \<open>size_t\<close> is its
  decimal expansion.
\<close>

definition isdigit :: "char \<Rightarrow> bool" where
  "isdigit c = (48 \<le> (of_char c :: nat) \<and> (of_char c :: nat) \<le> 57)"

definition isspace :: "char \<Rightarrow> bool" where
  "isspace c = ((of_char c :: nat) = 32 \<or> (9 \<le> (of_char c :: nat) \<and> (of_char c :: nat) \<le> 13))"

definition digit :: "nat \<Rightarrow> char" where
  "digit d = ''0123456789'' ! d"

fun decimal :: "nat \<Rightarrow> string" where
  "decimal n = (if n < 10 then [digit n]
                else decimal (n div 10) @ [digit (n mod 10)])"

declare decimal.simps [simp del]

definition to_string :: "size_t \<Rightarrow> string" where
  "to_string n = decimal (unat n)"

text \<open>
  A \<open>FILE\<close> open for reading: its bytes, the read position, the offset at which the device
  fails (if it does) and the stream's error indicator (what \<open>ferror\<close> reports).
  \<open>fread (buf, 1, n, f)\<close> returns the bytes it could read, at most \<open>n\<close>: a short count at
  the end of the file and at a read error, where it also sets the error indicator. Its
  result is a count of items; it has no value that stands for an error.
\<close>

record FILE =
  f_data :: string
  f_pos :: nat
  f_fail :: "nat option"
  f_error :: bool

definition f_limit :: "FILE \<Rightarrow> nat" where
  "f_limit f = (case f_fail f of None \<Rightarrow> length (f_data f)
                | Some e \<Rightarrow> min e (length (f_data f)))"

definition fread :: "nat \<Rightarrow> FILE \<Rightarrow> string \<times> FILE" where
  "fread n f =
     (let k = min n (f_limit f - f_pos f);
          failed = (k < n \<and> f_limit f < length (f_data f))
      in (take k (drop (f_pos f) (f_data f)),
          f\<lparr>f_pos := f_pos f + k, f_error := f_error f \<or> failed\<rparr>))"

text \<open>
  Modelled from the spec: \<open>filesize\<close> (declared outside Indexer.cpp), the size hint of the
  file source: the size of the file in bytes.
\<close>

definition filesize :: "FILE \<Rightarrow> nat" where
  "filesize f = length (f_data f)"

subsection \<open>Collaborators declared outside Indexer.cpp\<close>

text \<open>
  Modelled from the spec: \<open>SequenceDescriptor\<close> and its key (declared in the reader
  library's headers). The descriptor holds the start offset, the byte size, the number of
  samples and a key made of an interned sequence id and a sample index.
\<close>

record KeyType =
  m_sequence :: size_t
  m_sample :: nat

record SequenceDescriptor =
  m_fileOffsetBytes :: int
  m_byteSize :: int
  m_numberOfSamples :: nat
  m_key :: KeyType

text \<open>\<open>SequenceDescriptor sd = {}\<close>: every field zero.\<close>

definition empty_sd :: SequenceDescriptor where
  "empty_sd = \<lparr>m_fileOffsetBytes = 0, m_byteSize = 0, m_numberOfSamples = 0,
               m_key = \<lparr>m_sequence = 0, m_sample = 0\<rparr>\<rparr>"

text \<open>
  Modelled from the spec: the index sink \<open>m_index\<close> (class \<open>Index\<close>, declared in Index.h).
  It is built from the chunk size and the primary flag, answers \<open>IsEmpty\<close>, takes the
  capacity hint of \<open>Reserve\<close> and appends the descriptors of \<open>AddSequence\<close>. The model
  keeps the hints and the descriptors in the order of the calls.
\<close>

record Index =
  m_chunkSize :: nat
  m_primary :: bool
  m_reserved :: "nat list"
  m_sequences :: "SequenceDescriptor list"

definition new_Index :: "nat \<Rightarrow> bool \<Rightarrow> Index" where
  "new_Index chunkSize isPrimary =
     \<lparr>m_chunkSize = chunkSize, m_primary = isPrimary, m_reserved = [], m_sequences = []\<rparr>"

definition IsEmpty :: "Index \<Rightarrow> bool" where
  "IsEmpty ix = (m_sequences ix = [])"

definition Reserve :: "nat \<Rightarrow> Index \<Rightarrow> Index" where
  "Reserve n ix = ix\<lparr>m_reserved := m_reserved ix @ [n]\<rparr>"

definition AddSequence :: "SequenceDescriptor \<Rightarrow> Index \<Rightarrow> Index" where
  "AddSequence sd ix = ix\<lparr>m_sequences := m_sequences ix @ [sd]\<rparr>"

text \<open>
  Modelled from the spec: the string registry (\<open>StringToIdMap\<close>, declared in
  StringToIdMap.h). A key gets the next id on first sight, so the registry is the list of
  its keys and an id is a position in it. \<open>TryGet\<close> finds the id of a key, \<open>AddValue\<close>
  assigns the next id, \<open>operator[]\<close> on an id gives its key back (there is none for an id
  that was never assigned) and \<open>operator[]\<close> on a key interns it: the id it has, or the
  next one.
\<close>

type_synonym StringToIdMap = "string list"

fun index_of :: "string \<Rightarrow> string list \<Rightarrow> nat option" where
  "index_of k [] = None"
| "index_of k (x # xs) =
     (if x = k then Some 0 else map_option Suc (index_of k xs))"

definition TryGet :: "StringToIdMap \<Rightarrow> string \<Rightarrow> size_t option" where
  "TryGet mapping key = map_option of_nat (index_of key mapping)"

definition AddValue :: "StringToIdMap \<Rightarrow> string \<Rightarrow> size_t \<times> StringToIdMap" where
  "AddValue mapping key = (of_nat (length mapping), mapping @ [key])"

definition key_of_id :: "StringToIdMap \<Rightarrow> size_t \<Rightarrow> string option" where
  "key_of_id mapping i =
     (if unat i < length mapping then Some (mapping ! unat i) else None)"

definition id_of_key :: "StringToIdMap \<Rightarrow> string \<Rightarrow> size_t \<times> StringToIdMap" where
  "id_of_key mapping key =
     (case TryGet mapping key of Some i \<Rightarrow> (i, mapping) | None \<Rightarrow> AddValue mapping key)"

text \<open>
  Modelled from the spec: the corpus descriptor (declared in CorpusDescriptor.h) gives the
  registry and the inclusion filter \<open>IsIncluded\<close>, a predicate on keys.
\<close>

record CorpusDescriptor =
  stringRegistry :: StringToIdMap
  IsIncluded :: "string \<Rightarrow> bool"

subsection \<open>The indexer\<close>

datatype error =
    InputFileNotOpen
  | CouldNotRead
  | InputFileEmpty
  | ExpectedSequenceId int
  | UnknownId
  | AccessViolation

text \<open>
  The members of the class. A pointer into the array \<open>m_buffer\<close> is an index into it,
  \<open>None\<close> is \<open>nullptr\<close>. \<open>m_buffer\<close> is the content of the array (\<open>bufferSize + 1\<close> bytes),
  \<open>m_address\<close> the address it was allocated at, which only the difference of a null and a
  non-null pointer brings into play. \<open>calls\<close> is not a member: it is the history of the
  calls of \<open>AddSequenceIfIncluded\<close>, the key and the descriptor of each, kept so that
  the descriptors the filter drops can be spoken about.
\<close>

type_synonym ptr = "nat option"

record Indexer =
  m_streamPrefix :: char
  m_numericSequenceId :: bool
  m_bufferSize :: nat
  m_file :: FILE
  m_fileOffsetStart :: int
  m_fileOffsetEnd :: int
  m_address :: nat
  m_buffer :: string
  m_bufferStart :: ptr
  m_bufferEnd :: ptr
  m_pos :: ptr
  m_done :: bool
  m_hasSequenceIds :: bool
  m_index :: Index
  calls :: "(size_t \<times> SequenceDescriptor) list"

text \<open>
  The constructor. The array is allocated but not initialised: no byte of it is read
  before \<open>fread\<close> has written it; the model fills it with zeros.
\<close>

definition new_Indexer ::
  "bool \<Rightarrow> FILE option \<Rightarrow> bool \<Rightarrow> bool \<Rightarrow> char \<Rightarrow> nat \<Rightarrow> nat \<Rightarrow> nat \<Rightarrow> error + Indexer" where
  "new_Indexer isPrimary file skipSequenceIds numericSequenceId streamPrefix chunkSize
      bufferSize address =
     (case file of
        None \<Rightarrow> Inl InputFileNotOpen
      | Some f \<Rightarrow>
          Inr \<lparr>m_streamPrefix = streamPrefix,
               m_numericSequenceId = numericSequenceId,
               m_bufferSize = bufferSize,
               m_file = f,
               m_fileOffsetStart = 0,
               m_fileOffsetEnd = 0,
               m_address = address,
               m_buffer = replicate (bufferSize + 1) (CHR 0x00),
               m_bufferStart = None,
               m_bufferEnd = None,
               m_pos = None,
               m_done = False,
               m_hasSequenceIds = (\<not> skipSequenceIds),
               m_index = new_Index chunkSize isPrimary,
               calls = []\<rparr>)"

text \<open>Pointer arithmetic: the address of a pointer, and the difference of two.\<close>

definition address_of :: "Indexer \<Rightarrow> ptr \<Rightarrow> int" where
  "address_of s p = (case p of None \<Rightarrow> 0 | Some i \<Rightarrow> int (m_address s) + int i)"

text \<open>
  Modelled from the spec: \<open>GetFileOffset\<close> (defined in Indexer.h): the absolute offset of
  the read position, \<open>m_fileOffsetStart + (m_pos - m_bufferStart)\<close>.
\<close>

definition GetFileOffset :: "Indexer \<Rightarrow> int" where
  "GetFileOffset s =
     m_fileOffsetStart s + (address_of s (m_pos s) - address_of s (m_bufferStart s))"

definition RefillBuffer :: "Indexer \<Rightarrow> error + Indexer" where
  "RefillBuffer s =
     (if \<not> m_done s then
        (case fread (m_bufferSize s) (m_file s) of
           (chunk, f) \<Rightarrow>
             let bytesRead = length chunk;
                 s1 = s\<lparr>m_file := f,
                        m_buffer := chunk @ drop bytesRead (m_buffer s)\<rparr>
             in if bytesRead = 2 ^ 64 - 1 then Inl CouldNotRead
                else if bytesRead = 0 then Inr (s1\<lparr>m_done := True\<rparr>)
                else Inr (s1\<lparr>m_fileOffsetStart := m_fileOffsetEnd s,
                              m_fileOffsetEnd := m_fileOffsetEnd s + int bytesRead,
                              m_bufferStart := Some 0,
                              m_pos := Some 0,
                              m_bufferEnd := Some bytesRead\<rparr>))
      else Inr s)"

text \<open>Reading the byte a pointer points to: inside the array, or a fault.\<close>

definition deref :: "Indexer \<Rightarrow> ptr \<Rightarrow> error + char" where
  "deref s p =
     (case p of
        None \<Rightarrow> Inl AccessViolation
      | Some i \<Rightarrow> if i < length (m_buffer s) then Inr (m_buffer s ! i) else Inl AccessViolation)"

text \<open>
  \<open>memchr (from, c, to - from)\<close>: the first position of \<open>c\<close> in the bytes from \<open>from\<close>
  up to \<open>to\<close>, or \<open>nullptr\<close>.
\<close>

definition memchr :: "string \<Rightarrow> ptr \<Rightarrow> char \<Rightarrow> ptr \<Rightarrow> error + ptr" where
  "memchr buf from c to =
     (case (from, to) of
        (Some p, Some e) \<Rightarrow>
          if p \<le> e \<and> e \<le> length buf then
            (let k = length (takeWhile (\<lambda>x. x \<noteq> c) (take (e - p) (drop p buf)))
             in Inr (if k < e - p then Some (p + k) else None))
          else Inl AccessViolation
      | _ \<Rightarrow> Inl AccessViolation)"

text \<open>
  The body of \<open>AddSequenceIfIncluded\<close> reads \<open>sequenceKey\<close>, a name its parameter list
  does not bind: the parameter is \<open>sequenceId\<close>. The model takes the value of
  \<open>sequenceKey\<close> as its first argument and the parameter as its third. The descriptor is
  passed by reference and gets its key only when it is included; no caller reads it
  afterwards, so the model returns the corpus and the indexer.
\<close>

definition AddSequenceIfIncluded ::
  "size_t \<Rightarrow> CorpusDescriptor \<Rightarrow> size_t \<Rightarrow> SequenceDescriptor \<Rightarrow> Indexer
     \<Rightarrow> error + (CorpusDescriptor \<times> Indexer)" where
  "AddSequenceIfIncluded sequenceKey corpus sequenceId sd s0 =
     (let s = s0\<lparr>calls := calls s0 @ [(sequenceId, sd)]\<rparr> in
      if m_numericSequenceId s then
        (let key = to_string sequenceKey in
         if IsIncluded corpus key then
           (case id_of_key (stringRegistry corpus) key of
              (i, reg) \<Rightarrow>
                Inr (corpus\<lparr>stringRegistry := reg\<rparr>,
                     s\<lparr>m_index :=
                         AddSequence (sd\<lparr>m_key := \<lparr>m_sequence = i, m_sample = 0\<rparr>\<rparr>)
                           (m_index s)\<rparr>))
         else Inr (corpus, s))
      else
        (case key_of_id (stringRegistry corpus) sequenceKey of
           None \<Rightarrow> Inl UnknownId
         | Some key \<Rightarrow>
             if IsIncluded corpus key then
               (case id_of_key (stringRegistry corpus) key of
                  (i, reg) \<Rightarrow>
                    Inr (corpus\<lparr>stringRegistry := reg\<rparr>,
                         s\<lparr>m_index :=
                             AddSequence (sd\<lparr>m_key := \<lparr>m_sequence = i, m_sample = 0\<rparr>\<rparr>)
                               (m_index s)\<rparr>))
             else Inr (corpus, s)))"

text \<open>
  The measure of the loops: twice the bytes the file can still give, one while the stream
  is not exhausted, and the bytes left in the buffer.
\<close>

definition left_in_buffer :: "Indexer \<Rightarrow> nat" where
  "left_in_buffer s =
     (case (m_pos s, m_bufferEnd s) of (Some p, Some e) \<Rightarrow> e - p | _ \<Rightarrow> 0)"

definition todo :: "Indexer \<Rightarrow> nat" where
  "todo s = 2 * (f_limit (m_file s) - f_pos (m_file s)) + (if m_done s then 0 else 1)
            + left_in_buffer s"

lemma f_limit_le: "f_limit f \<le> length (f_data f)"
  by (cases "f_fail f") (simp_all add: f_limit_def)

lemma fread_length: "fread n f = (chunk, f') \<Longrightarrow> length chunk = min n (f_limit f - f_pos f)"
  using f_limit_le [of f] by (auto simp: fread_def Let_def)

lemma fread_pos: "fread n f = (chunk, f') \<Longrightarrow> f_pos f' = f_pos f + length chunk"
  using f_limit_le [of f] by (auto simp: fread_def Let_def)

lemma fread_limit: "fread n f = (chunk, f') \<Longrightarrow> f_limit f' = f_limit f"
  by (cases "f_fail f") (auto simp: fread_def Let_def f_limit_def)

lemma fread_data: "fread n f = (chunk, f') \<Longrightarrow> f_data f' = f_data f \<and> f_fail f' = f_fail f"
  by (auto simp: fread_def Let_def)

lemma fread_chunk:
  assumes "fread n f = (chunk, f')"
  shows "chunk = take (length chunk) (drop (f_pos f) (f_data f))"
proof -
  have "chunk = take (min n (f_limit f - f_pos f)) (drop (f_pos f) (f_data f))"
    using assms by (auto simp: fread_def Let_def)
  then show ?thesis
    using fread_length [OF assms] by simp
qed

lemma RefillBuffer_eq:
  assumes "fread (m_bufferSize s) (m_file s) = (chunk, f')"
  shows "RefillBuffer s =
     (if m_done s then Inr s
      else if length chunk = 2 ^ 64 - 1 then Inl CouldNotRead
      else if chunk = [] then
        Inr (s\<lparr>m_file := f', m_buffer := chunk @ drop (length chunk) (m_buffer s),
               m_done := True\<rparr>)
      else
        Inr (s\<lparr>m_file := f', m_buffer := chunk @ drop (length chunk) (m_buffer s),
               m_fileOffsetStart := m_fileOffsetEnd s,
               m_fileOffsetEnd := m_fileOffsetEnd s + int (length chunk),
               m_bufferStart := Some 0, m_pos := Some 0,
               m_bufferEnd := Some (length chunk)\<rparr>))"
  using assms by (simp add: RefillBuffer_def Let_def)

lemma RefillBuffer_todo_less:
  assumes r: "RefillBuffer s = Inr s'" and d: "\<not> m_done s"
  shows "todo s' < todo s"
proof (cases "fread (m_bufferSize s) (m_file s)")
  case (Pair chunk f')
  note fr = fread_length [OF Pair] fread_pos [OF Pair] fread_limit [OF Pair]
  show ?thesis
  proof (cases "chunk = []")
    case True
    then have "s' = s\<lparr>m_file := f', m_buffer := chunk @ drop (length chunk) (m_buffer s),
               m_done := True\<rparr>"
      using r d by (simp add: RefillBuffer_eq [OF Pair])
    then show ?thesis
      using d fr True by (simp add: todo_def left_in_buffer_def)
  next
    case False
    then have "s' = s\<lparr>m_file := f', m_buffer := chunk @ drop (length chunk) (m_buffer s),
               m_fileOffsetStart := m_fileOffsetEnd s,
               m_fileOffsetEnd := m_fileOffsetEnd s + int (length chunk),
               m_bufferStart := Some 0, m_pos := Some 0,
               m_bufferEnd := Some (length chunk)\<rparr>"
      using r d by (simp add: RefillBuffer_eq [OF Pair] split: if_splits)
    moreover have "0 < length chunk"
      using False by simp
    ultimately show ?thesis
      using d fr by (simp add: todo_def left_in_buffer_def) arith
  qed
qed

lemma RefillBuffer_todo_le: "RefillBuffer s = Inr s' \<Longrightarrow> todo s' \<le> todo s"
  using RefillBuffer_todo_less [of s s']
  by (cases "m_done s") (simp_all add: RefillBuffer_def less_imp_le)

subsection \<open>The scanning loops\<close>

text \<open>
  \<open>BuildFromLines\<close>: the loop \<open>while (!m_done)\<close> with its locals \<open>lines\<close> and \<open>offset\<close>, and
  the function around it (its \<open>assert\<close> has no effect on the run and is left out). The call of \<open>AddSequenceIfIncluded\<close> passes \<open>lines\<close>; the
  model gives the same value to the name \<open>sequenceKey\<close> of its body.
\<close>

lemma AddSequenceIfIncluded_frame:
  assumes "AddSequenceIfIncluded k corpus i sd s = Inr (corpus', s')"
  shows "m_pos s' = m_pos s" and "m_bufferEnd s' = m_bufferEnd s"
    and "m_bufferStart s' = m_bufferStart s" and "m_file s' = m_file s"
    and "m_done s' = m_done s" and "m_buffer s' = m_buffer s"
    and "m_fileOffsetStart s' = m_fileOffsetStart s"
    and "m_fileOffsetEnd s' = m_fileOffsetEnd s" and "m_address s' = m_address s"
    and "m_bufferSize s' = m_bufferSize s"
    and "m_numericSequenceId s' = m_numericSequenceId s"
    and "m_hasSequenceIds s' = m_hasSequenceIds s"
    and "m_streamPrefix s' = m_streamPrefix s"
  using assms
  by (auto simp: AddSequenceIfIncluded_def Let_def split: if_splits option.splits prod.splits)

lemma memchr_Some:
  "memchr buf (Some p) c (Some e) = Inr (Some q) \<Longrightarrow> p \<le> q \<and> q < e \<and> e \<le> length buf"
  by (auto simp: memchr_def Let_def split: if_splits)

function BuildFromLines_loop ::
  "CorpusDescriptor \<Rightarrow> size_t \<Rightarrow> int \<Rightarrow> Indexer
     \<Rightarrow> error + (CorpusDescriptor \<times> size_t \<times> int \<times> Indexer)" where
  "BuildFromLines_loop corpus lines offset s =
     (if \<not> m_done s then
        (case memchr (m_buffer s) (m_pos s) ROW_DELIMITER (m_bufferEnd s) of
           Inl e \<Rightarrow> Inl e
         | Inr None \<Rightarrow>
             (case RefillBuffer (s\<lparr>m_pos := None\<rparr>) of
                Inl e \<Rightarrow> Inl e
              | Inr s' \<Rightarrow> BuildFromLines_loop corpus lines offset s')
         | Inr (Some p) \<Rightarrow>
             (let s1 = s\<lparr>m_pos := Some p\<rparr>;
                  sd0 = empty_sd\<lparr>m_numberOfSamples := 1, m_fileOffsetBytes := offset\<rparr>;
                  offset' = GetFileOffset s1 + 1;
                  sd = sd0\<lparr>m_byteSize := offset' - m_fileOffsetBytes sd0\<rparr>
              in case AddSequenceIfIncluded lines corpus lines sd s1 of
                   Inl e \<Rightarrow> Inl e
                 | Inr (corpus', s2) \<Rightarrow>
                     BuildFromLines_loop corpus' (lines + 1) offset'
                       (s2\<lparr>m_pos := map_option Suc (m_pos s2)\<rparr>)))
      else Inr (corpus, lines, offset, s))"
  by pat_completeness auto
termination
proof (relation "measure (\<lambda>(corpus, lines, offset, s). todo s)", goal_cases)
  case 1
  show ?case by simp
next
  case (2 corpus lines offset s x2 x2a)
  have "todo (s\<lparr>m_pos := None\<rparr>) \<le> todo s"
    by (simp add: todo_def left_in_buffer_def split: option.splits)
  moreover have "todo x2a < todo (s\<lparr>m_pos := None\<rparr>)"
    using 2 by (intro RefillBuffer_todo_less) simp_all
  ultimately show ?case by simp
next
  case (3 corpus lines offset s x2 p s1 sd0 offset' sd y corpus' s2)
  obtain q e where pe: "m_pos s = Some q" "m_bufferEnd s = Some e"
    using 3(2) by (auto simp: memchr_def split: option.splits)
  have le: "q \<le> p \<and> p < e"
    using 3(2,3) pe memchr_Some by auto
  note fr = AddSequenceIfIncluded_frame [of lines corpus lines sd s1 corpus' s2]
  have eq: "AddSequenceIfIncluded lines corpus lines sd s1 = Inr (corpus', s2)"
    using 3 by simp
  have "todo (s2\<lparr>m_pos := map_option Suc (m_pos s2)\<rparr>)
      = todo (s1\<lparr>m_pos := map_option Suc (m_pos s1)\<rparr>)"
    using fr [OF eq] by (simp add: todo_def left_in_buffer_def)
  also have "\<dots> < todo s"
    using 3(4) pe le by (simp add: todo_def left_in_buffer_def, arith)
  finally show ?case by simp
qed

declare BuildFromLines_loop.simps [simp del]

definition BuildFromLines ::
  "CorpusDescriptor \<Rightarrow> Indexer \<Rightarrow> error + (CorpusDescriptor \<times> Indexer)" where
  "BuildFromLines corpus s0 =
     (let s = s0\<lparr>m_hasSequenceIds := False\<rparr>;
          lines = 0;
          offset = GetFileOffset s
      in case BuildFromLines_loop corpus lines offset s of
           Inl e \<Rightarrow> Inl e
         | Inr (corpus1, lines1, offset1, s1) \<Rightarrow>
             if offset1 < m_fileOffsetEnd s1 then
               (let sd0 = empty_sd\<lparr>m_numberOfSamples := 1, m_fileOffsetBytes := offset1\<rparr>;
                    sd = sd0\<lparr>m_byteSize := m_fileOffsetEnd s1 - m_fileOffsetBytes sd0\<rparr>
                in AddSequenceIfIncluded lines1 corpus1 lines1 sd s1)
             else Inr (corpus1, s1))"

text \<open>\<open>SkipLine\<close>: to the byte after the next row delimiter.\<close>

function SkipLine :: "Indexer \<Rightarrow> error + Indexer" where
  "SkipLine s =
     (if \<not> m_done s then
        (case memchr (m_buffer s) (m_pos s) ROW_DELIMITER (m_bufferEnd s) of
           Inl e \<Rightarrow> Inl e
         | Inr (Some p) \<Rightarrow>
             (let s1 = s\<lparr>m_pos := Some (Suc p)\<rparr>
              in if m_pos s1 = m_bufferEnd s1 then RefillBuffer s1 else Inr s1)
         | Inr None \<Rightarrow>
             (case RefillBuffer (s\<lparr>m_pos := None\<rparr>) of
                Inl e \<Rightarrow> Inl e
              | Inr s' \<Rightarrow> SkipLine s'))
      else Inr s)"
  by pat_completeness auto
termination
proof (relation "measure todo", goal_cases)
  case 1
  show ?case by simp
next
  case (2 s x2 s')
  have "todo (s\<lparr>m_pos := None\<rparr>) \<le> todo s"
    by (simp add: todo_def left_in_buffer_def split: option.splits)
  moreover have "todo s' < todo (s\<lparr>m_pos := None\<rparr>)"
    using 2 by (intro RefillBuffer_todo_less) simp_all
  ultimately show ?case by simp
qed

declare SkipLine.simps [simp del]

text \<open>
  \<open>TryGetSequenceId\<close>: the inner loop \<open>while (m_pos != m_bufferEnd)\<close> over the buffered bytes,
  with the locals \<open>found\<close>, \<open>id\<close> (here \<open>ident\<close>) and \<open>key\<close>. It ends with \<open>Some r\<close> where the code
  returns \<open>r\<close>, and with \<open>None\<close> where the loop runs out of bytes.
\<close>

function TryGetSequenceId_scan ::
  "bool \<Rightarrow> size_t \<Rightarrow> string \<Rightarrow> StringToIdMap \<Rightarrow> Indexer
     \<Rightarrow> error + (bool option \<times> bool \<times> size_t \<times> string \<times> StringToIdMap \<times> Indexer)" where
  "TryGetSequenceId_scan found ident key mapping s =
     (if m_pos s \<noteq> m_bufferEnd s then
        (case deref s (m_pos s) of
           Inl e \<Rightarrow> Inl e
         | Inr c \<Rightarrow>
             if m_numericSequenceId s then
               (if \<not> isdigit c then Inr (Some found, found, ident, key, mapping, s)
                else TryGetSequenceId_scan True (ident * 10 + (of_char c - 48)) key mapping
                       (s\<lparr>m_pos := map_option Suc (m_pos s)\<rparr>))
             else
               (if isspace c then
                  (if found then
                     (case TryGet mapping key of
                        Some i \<Rightarrow> Inr (Some found, found, i, key, mapping, s)
                      | None \<Rightarrow>
                          (case AddValue mapping key of
                             (i, mapping') \<Rightarrow> Inr (Some found, found, i, key, mapping', s)))
                   else Inr (Some found, found, ident, key, mapping, s))
                else TryGetSequenceId_scan True ident (key @ [c]) mapping
                       (s\<lparr>m_pos := map_option Suc (m_pos s)\<rparr>)))
      else Inr (None, found, ident, key, mapping, s))"
  by pat_completeness auto
termination
  by (relation "measure (\<lambda>(found, ident, key, mapping, s). length (m_buffer s) - the (m_pos s))")
    (auto simp: deref_def split: option.splits if_splits)

declare TryGetSequenceId_scan.simps [simp del]

lemma TryGetSequenceId_scan_todo:
  "TryGetSequenceId_scan found ident key mapping s = Inr (r, found', id', key', mapping', s') \<Longrightarrow>
     todo s' \<le> todo s \<and> m_done s' = m_done s"
proof (induction found ident key mapping s rule: TryGetSequenceId_scan.induct)
  case (1 found ident key mapping s)
  have step: "todo (s\<lparr>m_pos := map_option Suc (m_pos s)\<rparr>) \<le> todo s"
    by (cases "m_pos s"; cases "m_bufferEnd s") (simp_all add: todo_def left_in_buffer_def)
  have same: "m_done (s\<lparr>m_pos := map_option Suc (m_pos s)\<rparr>) = m_done s"
    by simp
  show ?case
  proof (cases "m_pos s \<noteq> m_bufferEnd s")
    case False
    then show ?thesis
      using "1.prems" by (simp add: TryGetSequenceId_scan.simps [of found ident key mapping s])
  next
    case True
    then obtain c where c: "deref s (m_pos s) = Inr c"
      using "1.prems"
      by (cases "deref s (m_pos s)") (simp_all add: TryGetSequenceId_scan.simps [of found ident key mapping s])
    show ?thesis
    proof (cases "m_numericSequenceId s")
      case num: True
      show ?thesis
      proof (cases "isdigit c")
        case False
        then show ?thesis
          using "1.prems" True c num
          by (simp add: TryGetSequenceId_scan.simps [of found ident key mapping s])
      next
        case dig: True
        have "TryGetSequenceId_scan True (ident * 10 + (of_char c - 48)) key mapping
                (s\<lparr>m_pos := map_option Suc (m_pos s)\<rparr>) = Inr (r, found', id', key', mapping', s')"
          using "1.prems" True c num dig
          by (simp add: TryGetSequenceId_scan.simps [of found ident key mapping s])
        from "1.IH"(1) [OF True c num _ this] dig step same show ?thesis
          by simp
      qed
    next
      case textual: False
      show ?thesis
      proof (cases "isspace c")
        case True
        then show ?thesis
          using "1.prems" \<open>m_pos s \<noteq> m_bufferEnd s\<close> c textual
          by (auto simp: TryGetSequenceId_scan.simps [of found ident key mapping s]
              split: if_splits option.splits prod.splits)
      next
        case nsp: False
        have "TryGetSequenceId_scan True ident (key @ [c]) mapping
                (s\<lparr>m_pos := map_option Suc (m_pos s)\<rparr>) = Inr (r, found', id', key', mapping', s')"
          using "1.prems" True c textual nsp
          by (simp add: TryGetSequenceId_scan.simps [of found ident key mapping s])
        from "1.IH"(2) [OF True c textual nsp this] step same show ?thesis
          by simp
      qed
    qed
  qed
qed

text \<open>The outer loop \<open>while (!m_done)\<close>, and the function: \<open>found\<close>, \<open>id\<close>, the registry.\<close>

function TryGetSequenceId_loop ::
  "bool \<Rightarrow> size_t \<Rightarrow> string \<Rightarrow> StringToIdMap \<Rightarrow> Indexer
     \<Rightarrow> error + (bool \<times> size_t \<times> StringToIdMap \<times> Indexer)" where
  "TryGetSequenceId_loop found ident key mapping s =
     (if \<not> m_done s then
        (case TryGetSequenceId_scan found ident key mapping s of
           Inl e \<Rightarrow> Inl e
         | Inr (Some r, found', id', key', mapping', s') \<Rightarrow> Inr (r, id', mapping', s')
         | Inr (None, found', id', key', mapping', s') \<Rightarrow>
             (case RefillBuffer s' of
                Inl e \<Rightarrow> Inl e
              | Inr s'' \<Rightarrow> TryGetSequenceId_loop found' id' key' mapping' s''))
      else Inr (False, ident, mapping, s))"
  by pat_completeness auto
termination
proof (relation "measure (\<lambda>(found, ident, key, mapping, s). todo s)", goal_cases)
  case 1
  show ?case by simp
next
  case (2 found ident key mapping s x2 r rest found' rest2 id' rest3 key' rest4 mapping' s' s'')
  have "TryGetSequenceId_scan found ident key mapping s = Inr (r, found', id', key', mapping', s')"
    using 2 by simp
  from TryGetSequenceId_scan_todo [OF this] have "todo s' \<le> todo s" "\<not> m_done s'"
    using 2(1) by simp_all
  moreover have "todo s'' < todo s'"
    using 2 \<open>\<not> m_done s'\<close> by (intro RefillBuffer_todo_less) simp_all
  ultimately show ?case by simp
qed

declare TryGetSequenceId_loop.simps [simp del]

definition TryGetSequenceId ::
  "StringToIdMap \<Rightarrow> Indexer \<Rightarrow> error + (bool \<times> size_t \<times> StringToIdMap \<times> Indexer)" where
  "TryGetSequenceId mapping s = TryGetSequenceId_loop False 0 [] mapping s"

lemma SkipLine_todo: "SkipLine s = Inr s' \<Longrightarrow> \<not> m_done s \<Longrightarrow> todo s' < todo s"
proof (induction s rule: SkipLine.induct)
  case (1 s)
  note eq = SkipLine.simps [of s]
  obtain m where m: "memchr (m_buffer s) (m_pos s) ROW_DELIMITER (m_bufferEnd s) = Inr m"
    using "1.prems" by (cases "memchr (m_buffer s) (m_pos s) ROW_DELIMITER (m_bufferEnd s)")
      (simp_all add: eq)
  show ?case
  proof (cases m)
    case None
    obtain s1 where s1: "RefillBuffer (s\<lparr>m_pos := None\<rparr>) = Inr s1"
      using "1.prems" m None by (cases "RefillBuffer (s\<lparr>m_pos := None\<rparr>)") (simp_all add: eq)
    have "todo (s\<lparr>m_pos := None\<rparr>) \<le> todo s"
      by (cases "m_pos s"; cases "m_bufferEnd s") (simp_all add: todo_def left_in_buffer_def)
    moreover have "todo s1 < todo (s\<lparr>m_pos := None\<rparr>)"
      using s1 "1.prems" by (intro RefillBuffer_todo_less) simp_all
    ultimately have less: "todo s1 < todo s"
      by simp
    have run: "SkipLine s1 = Inr s'"
      using "1.prems" m None s1 by (simp add: eq)
    show ?thesis
    proof (cases "m_done s1")
      case True
      then show ?thesis
        using run less by (simp add: SkipLine.simps [of s1])
    next
      case False
      from "1.IH" [OF "1.prems"(2) m None s1 run False] less show ?thesis
        by simp
    qed
  next
    case (Some p)
    obtain q e where pe: "m_pos s = Some q" "m_bufferEnd s = Some e"
      using m by (auto simp: memchr_def split: option.splits)
    have le: "q \<le> p \<and> p < e"
      using m Some pe memchr_Some by auto
    have less: "todo (s\<lparr>m_pos := Some (Suc p)\<rparr>) < todo s"
      using pe le by (simp add: todo_def left_in_buffer_def, arith)
    show ?thesis
    proof (cases "Suc p = e")
      case True
      then have "RefillBuffer (s\<lparr>m_pos := Some (Suc p)\<rparr>) = Inr s'"
        using "1.prems" m Some pe by (simp add: eq)
      from RefillBuffer_todo_le [OF this] less show ?thesis
        by simp
    next
      case False
      then have "s' = s\<lparr>m_pos := Some (Suc p)\<rparr>"
        using "1.prems" m Some pe by (simp add: eq)
      then show ?thesis
        using less by simp
    qed
  qed
qed

lemma TryGetSequenceId_loop_todo:
  "TryGetSequenceId_loop found ident key mapping s = Inr (r, ident', mapping', s') \<Longrightarrow>
     todo s' \<le> todo s"
proof (induction found ident key mapping s rule: TryGetSequenceId_loop.induct)
  case (1 found ident key mapping s)
  note eq = TryGetSequenceId_loop.simps [of found ident key mapping s]
  show ?case
  proof (cases "m_done s")
    case True
    then show ?thesis
      using "1.prems" by (simp add: eq)
  next
    case False
    obtain ret f1 i1 k1 m1 s1 where
      sc: "TryGetSequenceId_scan found ident key mapping s = Inr (ret, f1, i1, k1, m1, s1)"
      using "1.prems" False
      by (cases "TryGetSequenceId_scan found ident key mapping s") (auto simp: eq)
    note td = TryGetSequenceId_scan_todo [OF sc]
    show ?thesis
    proof (cases ret)
      case (Some b)
      then show ?thesis
        using "1.prems" False sc td by (simp add: eq)
    next
      case None
      obtain s2 where s2: "RefillBuffer s1 = Inr s2"
        using "1.prems" False sc None by (cases "RefillBuffer s1") (simp_all add: eq)
      have run: "TryGetSequenceId_loop f1 i1 k1 m1 s2 = Inr (r, ident', mapping', s')"
        using "1.prems" False sc None s2 by (simp add: eq)
      have "todo s' \<le> todo s2"
        by (rule "1.IH" [OF False sc refl None refl refl refl refl s2 run])
      then show ?thesis
        using td RefillBuffer_todo_le [OF s2] by simp
    qed
  qed
qed

text \<open>
  \<open>Build\<close>: the loop \<open>while (!m_done)\<close> of the key-grouped scan, with the locals
  \<open>currentKey\<close> and \<open>sd\<close> (\<open>id\<close> and \<open>offset\<close> are assigned anew in every round). The
  calls of \<open>AddSequenceIfIncluded\<close> pass \<open>currentKey\<close>; the model gives the same value
  to the name \<open>sequenceKey\<close> of its body.
\<close>

function Build_loop ::
  "CorpusDescriptor \<Rightarrow> size_t \<Rightarrow> SequenceDescriptor \<Rightarrow> Indexer
     \<Rightarrow> error + (CorpusDescriptor \<times> size_t \<times> SequenceDescriptor \<times> Indexer)" where
  "Build_loop corpus currentKey sd s =
     (if \<not> m_done s then
        (case SkipLine s of
           Inl e \<Rightarrow> Inl e
         | Inr s1 \<Rightarrow>
             (let offset = GetFileOffset s1;
                  sd1 = sd\<lparr>m_numberOfSamples := m_numberOfSamples sd + 1\<rparr>
              in if \<not> m_done s1 then
                   (case TryGetSequenceId (stringRegistry corpus) s1 of
                      Inl e \<Rightarrow> Inl e
                    | Inr (found, ident, mapping, s2) \<Rightarrow>
                        (let corpus1 = corpus\<lparr>stringRegistry := mapping\<rparr>
                         in if found \<and> ident \<noteq> currentKey then
                              (case AddSequenceIfIncluded currentKey corpus1 currentKey
                                      (sd1\<lparr>m_byteSize := offset - m_fileOffsetBytes sd1\<rparr>) s2 of
                                 Inl e \<Rightarrow> Inl e
                               | Inr (corpus2, s3) \<Rightarrow>
                                   Build_loop corpus2 ident
                                     (empty_sd\<lparr>m_fileOffsetBytes := offset\<rparr>) s3)
                            else Build_loop corpus1 currentKey sd1 s2))
                 else Build_loop corpus currentKey sd1 s1))
      else Inr (corpus, currentKey, sd, s))"
  by pat_completeness auto
termination
proof (relation "measure (\<lambda>(corpus, currentKey, sd, s). todo s)", goal_cases)
  case 1
  show ?case by simp
next
  case (2 corpus currentKey sd s s1 offset sd1 x2 found rest ident rest2 mapping s2 corpus1 x2a
      corpus2 s3)
  have "todo s1 < todo s"
    using 2 by (intro SkipLine_todo) simp_all
  moreover have "todo s2 \<le> todo s1"
    using 2 by (intro TryGetSequenceId_loop_todo [of False 0 "[]" "stringRegistry corpus" s1 found ident mapping])
      (simp add: TryGetSequenceId_def)
  moreover have "todo s3 = todo s2"
    using AddSequenceIfIncluded_frame [of currentKey corpus1 currentKey _ s2 corpus2 s3] 2
    by (simp add: todo_def left_in_buffer_def)
  ultimately show ?case by simp
next
  case (3 corpus currentKey sd s s1 offset sd1 x2 found rest ident rest2 mapping s2 corpus1)
  have "todo s1 < todo s"
    using 3 by (intro SkipLine_todo) simp_all
  moreover have "todo s2 \<le> todo s1"
    using 3 by (intro TryGetSequenceId_loop_todo [of False 0 "[]" "stringRegistry corpus" s1 found ident mapping])
      (simp add: TryGetSequenceId_def)
  ultimately show ?case by simp
next
  case (4 corpus currentKey sd s s1 offset sd1)
  have "todo s1 < todo s"
    using 4 by (intro SkipLine_todo) simp_all
  then show ?case by simp
qed

declare Build_loop.simps [simp del]

text \<open>The test for the byte order mark at the start of the first block.\<close>

definition has_BOM :: "Indexer \<Rightarrow> error + bool" where
  "has_BOM s =
     (if address_of s (m_bufferEnd s) - address_of s (m_bufferStart s) > 3 then
        (case deref s (m_bufferStart s) of
           Inl e \<Rightarrow> Inl e
         | Inr c0 \<Rightarrow>
             if c0 \<noteq> CHR 0xEF then Inr False
             else
               (case deref s (map_option (\<lambda>b. b + 1) (m_bufferStart s)) of
                  Inl e \<Rightarrow> Inl e
                | Inr c1 \<Rightarrow>
                    if c1 \<noteq> CHR 0xBB then Inr False
                    else
                      (case deref s (map_option (\<lambda>b. b + 2) (m_bufferStart s)) of
                         Inl e \<Rightarrow> Inl e
                       | Inr c2 \<Rightarrow> Inr (c2 = CHR 0xBF))))
      else Inr False)"

text \<open>The test that sends the scan to \<open>BuildFromLines\<close>.\<close>

definition lines_only :: "Indexer \<Rightarrow> error + bool" where
  "lines_only s =
     (if \<not> m_hasSequenceIds s then Inr True
      else
        (case deref s (m_bufferStart s) of
           Inl e \<Rightarrow> Inl e
         | Inr c \<Rightarrow> Inr (c = m_streamPrefix s)))"

definition Build :: "CorpusDescriptor \<Rightarrow> Indexer \<Rightarrow> error + (CorpusDescriptor \<times> Indexer)" where
  "Build corpus s0 =
     (if \<not> IsEmpty (m_index s0) then Inr (corpus, s0)
      else
        (case RefillBuffer (s0\<lparr>m_index := Reserve (filesize (m_file s0)) (m_index s0)\<rparr>) of
           Inl e \<Rightarrow> Inl e
         | Inr s1 \<Rightarrow>
             if m_done s1 then Inl InputFileEmpty
             else
               (case has_BOM s1 of
                  Inl e \<Rightarrow> Inl e
                | Inr bom \<Rightarrow>
                    (let s2 = (if bom then
                                 s1\<lparr>m_pos := map_option (\<lambda>p. p + 3) (m_pos s1),
                                    m_fileOffsetStart := m_fileOffsetStart s1 + 3,
                                    m_bufferStart := map_option (\<lambda>p. p + 3) (m_bufferStart s1)\<rparr>
                               else s1)
                     in case lines_only s2 of
                          Inl e \<Rightarrow> Inl e
                        | Inr True \<Rightarrow> BuildFromLines corpus s2
                        | Inr False \<Rightarrow>
                            (let offset = GetFileOffset s2
                             in case TryGetSequenceId (stringRegistry corpus) s2 of
                                  Inl e \<Rightarrow> Inl e
                                | Inr (found, ident, mapping, s3) \<Rightarrow>
                                    if \<not> found then Inl (ExpectedSequenceId offset)
                                    else
                                      (case Build_loop (corpus\<lparr>stringRegistry := mapping\<rparr>) ident
                                              (empty_sd\<lparr>m_fileOffsetBytes := offset\<rparr>) s3 of
                                         Inl e \<Rightarrow> Inl e
                                       | Inr (corpus1, currentKey, sd, s4) \<Rightarrow>
                                           AddSequenceIfIncluded currentKey corpus1 currentKey
                                             (sd\<lparr>m_byteSize :=
                                                  m_fileOffsetEnd s4 - m_fileOffsetBytes sd\<rparr>)
                                             s4))))))"

subsection \<open>Running a scan\<close>

text \<open>
  A file just opened on a device that does not fail, a corpus that includes every key,
  one that includes a single key, and a scan from the constructor to the end of \<open>Build\<close>.
\<close>

definition fopen :: "string \<Rightarrow> FILE" where
  "fopen d = \<lparr>f_data = d, f_pos = 0, f_fail = None, f_error = False\<rparr>"

definition include_all :: "StringToIdMap \<Rightarrow> CorpusDescriptor" where
  "include_all mapping = \<lparr>stringRegistry = mapping, IsIncluded = (\<lambda>key. True)\<rparr>"


definition scan ::
  "FILE \<Rightarrow> bool \<Rightarrow> bool \<Rightarrow> char \<Rightarrow> nat \<Rightarrow> CorpusDescriptor
     \<Rightarrow> error + (CorpusDescriptor \<times> Indexer)" where
  "scan f skipSequenceIds numericSequenceId streamPrefix bufferSize corpus =
     (case new_Indexer True (Some f) skipSequenceIds numericSequenceId streamPrefix 0
             bufferSize 4096 of
        Inl e \<Rightarrow> Inl e
      | Inr s \<Rightarrow> Build corpus s)"

lemmas model_defs = scan_def fopen_def new_Indexer_def new_Index_def Build_def IsEmpty_def
  Reserve_def filesize_def RefillBuffer_def fread_def f_limit_def has_BOM_def address_of_def
  deref_def lines_only_def BuildFromLines_def BuildFromLines_loop.simps memchr_def
  ROW_DELIMITER_def GetFileOffset_def empty_sd_def AddSequenceIfIncluded_def AddSequence_def
  to_string_def decimal.simps digit_def id_of_key_def TryGet_def AddValue_def key_of_id_def
  SkipLine.simps TryGetSequenceId_def TryGetSequenceId_loop.simps
  TryGetSequenceId_scan.simps Build_loop.simps isdigit_def isspace_def Let_def

section \<open>The scan as a function of the file\<close>

text \<open>
  The descriptors a scan computes do not depend on where the buffer is refilled. To
  prove it, every loop of the indexer is related to a function that reads the rest of
  the file as one list: \<open>stream_lines\<close> for \<open>BuildFromLines\<close>, \<open>skip_line\<close> for
  \<open>SkipLine\<close>, \<open>read_key\<close> for \<open>TryGetSequenceId\<close>, \<open>stream_keyed\<close> for the loop of
  \<open>Build\<close> and \<open>stream_Build\<close> for \<open>Build\<close>. These functions are not part of the code;
  the theorems about the code are stated on \<open>Build\<close> and proved through them.

  \<open>reading data a s\<close> is the invariant of a scan that is not exhausted: the read
  position is the absolute offset \<open>a\<close> of the file \<open>data\<close>, the buffered bytes from the
  position to the end of the buffer are the bytes of the file from \<open>a\<close> on, and the
  file position is where the buffer ends. \<open>fin data s\<close> is an exhausted scan.
\<close>

definition reading :: "string \<Rightarrow> nat \<Rightarrow> Indexer \<Rightarrow> bool" where
  "reading data a s \<longleftrightarrow>
     \<not> m_done s \<and> 0 < m_bufferSize s \<and> length data < 2 ^ 63 \<and>
     f_data (m_file s) = data \<and> f_fail (m_file s) = None \<and>
     (\<exists>bs p e. m_bufferStart s = Some bs \<and> m_pos s = Some p \<and> m_bufferEnd s = Some e \<and>
        p \<le> e \<and> e \<le> length (m_buffer s) \<and>
        m_fileOffsetStart s = int a + int bs - int p \<and>
        f_pos (m_file s) = a + (e - p) \<and> a + (e - p) \<le> length data \<and>
        m_fileOffsetEnd s = int (a + (e - p)) \<and>
        take (e - p) (drop p (m_buffer s)) = take (e - p) (drop a data))"

definition fin :: "string \<Rightarrow> Indexer \<Rightarrow> bool" where
  "fin data s \<longleftrightarrow> m_done s \<and> m_fileOffsetEnd s = int (length data)"

definition kept :: "Indexer \<Rightarrow> Indexer \<Rightarrow> bool" where
  "kept s s' \<longleftrightarrow>
     m_numericSequenceId s' = m_numericSequenceId s \<and> m_index s' = m_index s \<and>
     calls s' = calls s"

definition at :: "string \<Rightarrow> nat \<Rightarrow> Indexer \<Rightarrow> bool" where
  "at data a s \<longleftrightarrow> (if a < length data then reading data a s else fin data s)"

lemma kept_refl [simp]: "kept s s"
  by (simp add: kept_def)

lemma kept_trans: "kept s s' \<Longrightarrow> kept s' s'' \<Longrightarrow> kept s s''"
  by (simp add: kept_def)

lemma reading_GetFileOffset: "reading data a s \<Longrightarrow> GetFileOffset s = int a"
  by (auto simp: reading_def GetFileOffset_def address_of_def)

lemma reading_not_done: "reading data a s \<Longrightarrow> \<not> m_done s"
  by (simp add: reading_def)

lemma reading_advance:
  assumes "reading data a s" "m_pos s = Some p" "m_bufferEnd s = Some e" "p + j \<le> e"
  shows "reading data (a + j) (s\<lparr>m_pos := Some (p + j)\<rparr>)"
proof -
  have w: "take (e - p) (drop p (m_buffer s)) = take (e - p) (drop a data)"
    using assms by (auto simp: reading_def)
  have "take (e - (p + j)) (drop (p + j) (m_buffer s))
      = drop j (take (e - p) (drop p (m_buffer s)))"
    by (simp add: drop_take add.commute)
  also have "\<dots> = take (e - (p + j)) (drop (a + j) data)"
    by (simp add: w drop_take add.commute)
  finally show ?thesis
    using assms by (auto simp: reading_def)
qed

lemma reading_window:
  assumes "reading data a s" "m_pos s = Some p" "m_bufferEnd s = Some e"
  shows "take (e - p) (drop p (m_buffer s)) = take (e - p) (drop a data)"
    and "p \<le> e" and "e \<le> length (m_buffer s)" and "a + (e - p) \<le> length data"
    and "f_pos (m_file s) = a + (e - p)"
  using assms by (auto simp: reading_def)

lemma reading_pointers:
  assumes "reading data a s"
  obtains p e where "m_pos s = Some p" "m_bufferEnd s = Some e"
  using assms by (auto simp: reading_def)

lemma RefillBuffer_at:
  assumes w: "reading data a s"
  obtains s' where "RefillBuffer (s\<lparr>m_pos := x\<rparr>) = Inr s'"
    and "at data (f_pos (m_file s)) s'" and "kept s s'"
proof -
  let ?t = "s\<lparr>m_pos := x\<rparr>"
  obtain chunk f' where fr: "fread (m_bufferSize ?t) (m_file ?t) = (chunk, f')"
    by (cases "fread (m_bufferSize ?t) (m_file ?t)")
  have nf: "f_fail (m_file s) = None" and dat: "f_data (m_file s) = data"
    and b: "0 < m_bufferSize s" and big: "length data < 2 ^ 63" and nd: "\<not> m_done s"
    and le: "f_pos (m_file s) \<le> length data"
    and fe: "m_fileOffsetEnd s = int (f_pos (m_file s))"
    using w by (auto simp: reading_def)
  have lim: "f_limit (m_file s) = length data"
    using nf dat by (simp add: f_limit_def)
  have len: "length chunk = min (m_bufferSize s) (length data - f_pos (m_file s))"
    using fread_length [OF fr] lim by simp
  have pos: "f_pos f' = f_pos (m_file s) + length chunk"
    using fread_pos [OF fr] by simp
  have dat': "f_data f' = data" "f_fail f' = None"
    using fread_data [OF fr] dat nf by simp_all
  have ch: "chunk = take (length chunk) (drop (f_pos (m_file s)) data)"
    using fread_chunk [OF fr] dat by simp
  have small: "length chunk \<noteq> 2 ^ 64 - 1"
    using len big by (simp add: min_def split: if_splits)
  show ?thesis
  proof (cases "chunk = []")
    case True
    then have eof: "f_pos (m_file s) = length data"
      using len b le by (simp add: min_def split: if_splits)
    have "RefillBuffer ?t = Inr (?t\<lparr>m_file := f', m_buffer := chunk @ drop (length chunk) (m_buffer ?t),
               m_done := True\<rparr>)"
      using True nd by (simp add: RefillBuffer_eq [OF fr])
    moreover have "at data (f_pos (m_file s)) (?t\<lparr>m_file := f', m_buffer := chunk @ drop (length chunk) (m_buffer ?t),
               m_done := True\<rparr>)"
      using eof fe by (simp add: at_def fin_def)
    moreover have "kept s (?t\<lparr>m_file := f', m_buffer := chunk @ drop (length chunk) (m_buffer ?t),
               m_done := True\<rparr>)"
      by (simp add: kept_def)
    ultimately show ?thesis
      using that by blast
  next
    case False
    let ?s' = "?t\<lparr>m_file := f', m_buffer := chunk @ drop (length chunk) (m_buffer ?t),
               m_fileOffsetStart := m_fileOffsetEnd ?t,
               m_fileOffsetEnd := m_fileOffsetEnd ?t + int (length chunk),
               m_bufferStart := Some 0, m_pos := Some 0,
               m_bufferEnd := Some (length chunk)\<rparr>"
    have "0 < length chunk"
      using False by simp
    then have lt: "f_pos (m_file s) < length data"
      using len by arith
    have "RefillBuffer ?t = Inr ?s'"
      using False nd small by (simp add: RefillBuffer_eq [OF fr])
    moreover have "f_pos (m_file s) + length chunk \<le> length data"
      using len le by arith
    then have "reading data (f_pos (m_file s)) ?s'"
      using b big dat' fe pos ch nd by (simp add: reading_def)
    moreover have "kept s ?s'"
      by (simp add: kept_def)
    ultimately show ?thesis
      using that lt by (simp add: at_def)
  qed
qed


type_synonym sink = "Index \<times> (size_t \<times> SequenceDescriptor) list"

definition emit ::
  "bool \<Rightarrow> size_t \<Rightarrow> SequenceDescriptor \<Rightarrow> CorpusDescriptor \<Rightarrow> sink
     \<Rightarrow> error + (CorpusDescriptor \<times> sink)" where
  "emit numeric k sd corpus snk =
     (case (if numeric then Some (to_string k) else key_of_id (stringRegistry corpus) k) of
        None \<Rightarrow> Inl UnknownId
      | Some key \<Rightarrow>
          if IsIncluded corpus key then
            (case id_of_key (stringRegistry corpus) key of
               (i, reg) \<Rightarrow>
                 Inr (corpus\<lparr>stringRegistry := reg\<rparr>,
                      AddSequence (sd\<lparr>m_key := \<lparr>m_sequence = i, m_sample = 0\<rparr>\<rparr>) (fst snk),
                      snd snk @ [(k, sd)]))
          else Inr (corpus, fst snk, snd snk @ [(k, sd)]))"

lemma AddSequenceIfIncluded_emit:
  "AddSequenceIfIncluded k corpus k sd s =
     (case emit (m_numericSequenceId s) k sd corpus (m_index s, calls s) of
        Inl e \<Rightarrow> Inl e
      | Inr (corpus', ix, cl) \<Rightarrow> Inr (corpus', s\<lparr>calls := cl, m_index := ix\<rparr>))"
  by (simp add: AddSequenceIfIncluded_def emit_def Let_def split: option.splits prod.splits)

lemma reading_sink [simp]: "reading data a (s\<lparr>calls := cl, m_index := ix\<rparr>) = reading data a s"
  by (simp add: reading_def)

lemma fin_sink [simp]: "fin data (s\<lparr>calls := cl, m_index := ix\<rparr>) = fin data s"
  by (simp add: fin_def)

definition line_sd :: "int \<Rightarrow> int \<Rightarrow> SequenceDescriptor" where
  "line_sd offset next = empty_sd\<lparr>m_numberOfSamples := 1, m_fileOffsetBytes := offset,
     m_byteSize := next - offset\<rparr>"

fun stream_lines ::
  "bool \<Rightarrow> CorpusDescriptor \<Rightarrow> size_t \<Rightarrow> int \<Rightarrow> int \<Rightarrow> string \<Rightarrow> sink
     \<Rightarrow> error + (CorpusDescriptor \<times> size_t \<times> int \<times> sink)" where
  "stream_lines numeric corpus lines offset a [] snk = Inr (corpus, lines, offset, snk)"
| "stream_lines numeric corpus lines offset a (c # cs) snk =
     (if c = ROW_DELIMITER then
        (case emit numeric lines (line_sd offset (a + 1)) corpus snk of
           Inl e \<Rightarrow> Inl e
         | Inr (corpus', snk') \<Rightarrow> stream_lines numeric corpus' (lines + 1) (a + 1) (a + 1) cs snk')
      else stream_lines numeric corpus lines offset (a + 1) cs snk)"

lemma stream_lines_skip:
  "ROW_DELIMITER \<notin> set xs \<Longrightarrow>
     stream_lines numeric corpus lines offset a (xs @ ys) snk
       = stream_lines numeric corpus lines offset (a + int (length xs)) ys snk"
  by (induction xs arbitrary: a) (auto simp: add.assoc)

lemma memchr_window:
  assumes "reading data a s" "m_pos s = Some p" "m_bufferEnd s = Some e"
  shows "memchr (m_buffer s) (m_pos s) c (m_bufferEnd s) =
     (let k = length (takeWhile (\<lambda>x. x \<noteq> c) (take (e - p) (drop a data)))
      in Inr (if k < e - p then Some (p + k) else None))"
  using reading_window [OF assms] assms(2,3) by (simp add: memchr_def)

text \<open>Splitting the rest of the file at the first delimiter of the buffered window.\<close>

lemma window_split:
  assumes "k = length (takeWhile (\<lambda>x. x \<noteq> c) (take n rest))" "k < n" "n \<le> length rest"
  shows "rest = take k rest @ c # drop (Suc k) rest" and "c \<notin> set (take k rest)"
proof -
  let ?w = "take n rest"
  have kw: "k < length ?w"
    using assms by simp
  have "?w ! k = c"
    using nth_length_takeWhile [of "\<lambda>x. x \<noteq> c" ?w] kw assms(1) by auto
  then have c: "rest ! k = c"
    using assms by simp
  have "takeWhile (\<lambda>x. x \<noteq> c) ?w = take k ?w"
    using assms(1) takeWhile_eq_take by blast 
  then have "take k rest = takeWhile (\<lambda>x. x \<noteq> c) ?w"
    using assms by (simp add: min_def)
  then show "c \<notin> set (take k rest)"
    by (metis (mono_tags, lifting) set_takeWhileD)
  have "k < length rest"
    using assms by simp
  then show "rest = take k rest @ c # drop (Suc k) rest"
    using c by (metis id_take_nth_drop)
qed

lemma window_none:
  assumes "k = length (takeWhile (\<lambda>x. x \<noteq> c) (take n rest))" "\<not> k < n" "n \<le> length rest"
  shows "c \<notin> set (take n rest)"
proof -
  have "length (takeWhile (\<lambda>x. x \<noteq> c) (take n rest)) = length (take n rest)"
    using assms length_takeWhile_le [of "\<lambda>x. x \<noteq> c" "take n rest"] by simp
  then have "takeWhile (\<lambda>x. x \<noteq> c) (take n rest) = take n rest"
    by (metis takeWhile_eq_take take_all order_refl)
  then show ?thesis
    by (metis (mono_tags, lifting) set_takeWhileD)
qed


definition lines_ok ::
  "string \<Rightarrow> bool \<Rightarrow> error + (CorpusDescriptor \<times> size_t \<times> int \<times> Indexer)
     \<Rightarrow> error + (CorpusDescriptor \<times> size_t \<times> int \<times> sink) \<Rightarrow> bool" where
  "lines_ok data numeric r t =
     (case t of
        Inl e \<Rightarrow> r = Inl e
      | Inr (corpus, lines, offset, ix, cl) \<Rightarrow>
          (\<exists>s'. r = Inr (corpus, lines, offset, s') \<and> fin data s' \<and> m_index s' = ix \<and>
                calls s' = cl \<and> m_numericSequenceId s' = numeric))"

lemma todo_advance:
  assumes "m_pos s = Some p" "m_bufferEnd s = Some e" "p + j \<le> e" "0 < j"
  shows "todo (s\<lparr>m_pos := Some (p + j), calls := cl, m_index := ix\<rparr>) < todo s"
proof -
  have "left_in_buffer (s\<lparr>m_pos := Some (p + j), calls := cl, m_index := ix\<rparr>) = e - (p + j)"
    and "left_in_buffer s = e - p"
    using assms by (simp_all add: left_in_buffer_def)
  moreover have "e - (p + j) < e - p"
    using assms by arith
  ultimately show ?thesis
    by (simp add: todo_def)
qed

lemma BuildFromLines_loop_stream:
  "reading data a s \<Longrightarrow>
     lines_ok data (m_numericSequenceId s) (BuildFromLines_loop corpus lines offset s)
       (stream_lines (m_numericSequenceId s) corpus lines offset (int a) (drop a data)
          (m_index s, calls s))"
proof (induction "todo s" arbitrary: s a corpus lines offset rule: less_induct)
  case less
  note w = \<open>reading data a s\<close>
  obtain p e where pe: "m_pos s = Some p" "m_bufferEnd s = Some e"
    using w by (rule reading_pointers)
  note win = reading_window [OF w pe]
  define n where "n = e - p"
  define rest where "rest = drop a data"
  define k where "k = length (takeWhile (\<lambda>x. x \<noteq> ROW_DELIMITER) (take n rest))"
  have nl: "n \<le> length rest"
    using win(4) by (simp add: n_def rest_def)
  have mem: "memchr (m_buffer s) (m_pos s) ROW_DELIMITER (m_bufferEnd s)
      = Inr (if k < n then Some (p + k) else None)"
    using memchr_window [OF w pe] by (simp add: k_def n_def rest_def Let_def)
  have nd: "\<not> m_done s"
    using w by (rule reading_not_done)
  note unfold = BuildFromLines_loop.simps [of corpus lines offset s]
  show ?case
  proof (cases "k < n")
    case False
    have none: "ROW_DELIMITER \<notin> set (take n rest)"
      using k_def False nl by (rule window_none)
    obtain s1 where s1: "RefillBuffer (s\<lparr>m_pos := None\<rparr>) = Inr s1"
      and at1: "at data (f_pos (m_file s)) s1" and k1: "kept s s1"
      using RefillBuffer_at [OF w] by blast
    have fp: "f_pos (m_file s) = a + n"
      using win(5) by (simp add: n_def)
    have run: "BuildFromLines_loop corpus lines offset s = BuildFromLines_loop corpus lines offset s1"
      using nd mem False s1 by (simp add: unfold)
    have l1: "length (take n rest) = n" and d1: "drop n rest = drop (a + n) data"
      using nl by (simp_all add: rest_def add.commute)
    have str: "stream_lines (m_numericSequenceId s) corpus lines offset (int a) rest
          (m_index s, calls s)
        = stream_lines (m_numericSequenceId s) corpus lines offset (int (a + n))
            (drop (a + n) data) (m_index s, calls s)"
    proof -
      have sp: "take n rest @ drop (a + n) data = rest"
        by (simp add: d1 [symmetric])
      show ?thesis
        using stream_lines_skip [OF none, of "m_numericSequenceId s" corpus lines offset "int a"
            "drop (a + n) data" "(m_index s, calls s)"]
        unfolding l1 sp by simp
    qed
    show ?thesis
    proof (cases "a + n < length data")
      case True
      then have w1: "reading data (a + n) s1"
        using at1 fp by (simp add: at_def)
      have "todo s1 < todo s"
      proof -
        have "todo (s\<lparr>m_pos := None\<rparr>) \<le> todo s"
          using pe by (simp add: todo_def left_in_buffer_def)
        moreover have "todo s1 < todo (s\<lparr>m_pos := None\<rparr>)"
          using s1 nd by (intro RefillBuffer_todo_less) simp_all
        ultimately show ?thesis by simp
      qed
      from less.hyps [OF this w1, of corpus lines offset] show ?thesis
        using run str k1 by (simp add: rest_def kept_def)
    next
      case False
      then have f1: "fin data s1" and emp: "drop (a + n) data = []"
        using at1 fp by (simp_all add: at_def)
      have "BuildFromLines_loop corpus lines offset s1 = Inr (corpus, lines, offset, s1)"
        using f1 by (simp add: BuildFromLines_loop.simps [of corpus lines offset s1] fin_def)
      then show ?thesis
        using run str emp f1 k1 by (simp add: rest_def lines_ok_def kept_def)
    qed
  next
    case True
    have split: "rest = take k rest @ ROW_DELIMITER # drop (Suc k) rest"
      and before: "ROW_DELIMITER \<notin> set (take k rest)"
      using window_split [OF k_def True nl] by blast+
    have klen: "k < length rest"
      using True nl by simp
    have pk: "p + k \<le> e" "p + Suc k \<le> e"
      using True by (simp_all add: n_def)
    let ?num = "m_numericSequenceId s"
    let ?sd = "line_sd offset (int a + int k + 1)"
    have l1: "length (take k rest) = k"
      using klen by simp
    have "stream_lines ?num corpus lines offset (int a) rest (m_index s, calls s)
        = stream_lines ?num corpus lines offset (int a + int k)
            (ROW_DELIMITER # drop (Suc k) rest) (m_index s, calls s)"
      using stream_lines_skip [OF before, of ?num corpus lines offset "int a"
          "ROW_DELIMITER # drop (Suc k) rest" "(m_index s, calls s)"]
      unfolding split [symmetric] l1 by simp
    then have str: "stream_lines ?num corpus lines offset (int a) rest (m_index s, calls s)
        = (case emit ?num lines ?sd corpus (m_index s, calls s) of
             Inl e \<Rightarrow> Inl e
           | Inr (corpus', snk') \<Rightarrow>
               stream_lines ?num corpus' (lines + 1) (int a + int k + 1) (int a + int k + 1)
                 (drop (Suc k) rest) snk')"
      by simp
    have w1: "reading data (a + k) (s\<lparr>m_pos := Some (p + k)\<rparr>)"
      using w pe pk(1) by (rule reading_advance)
    have off: "GetFileOffset (s\<lparr>m_pos := Some (p + k)\<rparr>) = int a + int k"
      using reading_GetFileOffset [OF w1] by simp
    show ?thesis
    proof (cases "emit ?num lines ?sd corpus (m_index s, calls s)")
      case (Inl err)
      have "BuildFromLines_loop corpus lines offset s = Inl err"
        using nd mem True off Inl
        by (simp add: unfold AddSequenceIfIncluded_emit line_sd_def)
      then show ?thesis
        using str Inl by (simp add: rest_def lines_ok_def)
    next
      case (Inr res)
      obtain corpus' ix cl where res: "res = (corpus', ix, cl)"
        by (cases res) auto
      let ?s3 = "s\<lparr>calls := cl, m_index := ix, m_pos := Some (Suc (p + k))\<rparr>"
      have eq3: "?s3 = s\<lparr>m_pos := Some (p + Suc k), calls := cl, m_index := ix\<rparr>"
        by simp
      have run: "BuildFromLines_loop corpus lines offset s
          = BuildFromLines_loop corpus' (lines + 1) (int a + int k + 1) ?s3"
        using nd mem True off Inr res
        by (simp add: unfold AddSequenceIfIncluded_emit line_sd_def)
      have "reading data (a + Suc k) (s\<lparr>m_pos := Some (p + Suc k)\<rparr>)"
        using w pe pk(2) by (rule reading_advance)
      then have w3: "reading data (a + Suc k) ?s3"
        unfolding eq3 by simp
      have "todo ?s3 < todo s"
        unfolding eq3 using pe pk(2) by (rule todo_advance) simp
      from less.hyps [OF this w3, of corpus' "lines + 1" "int a + int k + 1"] show ?thesis
        using run str Inr res by (simp add: rest_def add.commute)
    qed
  qed
qed


definition skip_line :: "string \<Rightarrow> nat \<Rightarrow> nat" where
  "skip_line data a =
     (let rest = drop a data;
          k = length (takeWhile (\<lambda>x. x \<noteq> ROW_DELIMITER) rest)
      in if k < length rest then a + k + 1 else length data)"

lemma takeWhile_window:
  assumes "k = length (takeWhile P (take n rest))" "k < n" "n \<le> length rest"
  shows "takeWhile P rest = takeWhile P (take n rest)"
proof -
  let ?w = "take n rest"
  have kw: "k < length ?w"
    using assms by simp
  have "\<not> P (?w ! k)"
    using nth_length_takeWhile [of P ?w] kw assms(1) by auto
  have "takeWhile P (?w @ drop n rest) = takeWhile P ?w"
  proof (rule takeWhile_append1 [of "?w ! k"])
    show "?w ! k \<in> set ?w"
      using kw by (rule nth_mem)
    show "\<not> P (?w ! k)"
      by fact
  qed
  then show ?thesis
    by simp
qed

lemma takeWhile_all:
  assumes "\<not> length (takeWhile P w) < length w"
  shows "takeWhile P w = w" and "\<forall>x\<in>set w. P x"
proof -
  have "length (takeWhile P w) = length w"
    using assms length_takeWhile_le [of P w] by simp
  then show "takeWhile P w = w"
    by (metis takeWhile_eq_take take_all order_refl)
  then show "\<forall>x\<in>set w. P x"
    by (metis set_takeWhileD)
qed

lemma skip_line_window:
  assumes "\<not> length (takeWhile (\<lambda>x. x \<noteq> ROW_DELIMITER) (take n (drop a data))) < n"
    and "a + n \<le> length data"
  shows "skip_line data (a + n) = skip_line data a"
proof -
  let ?P = "\<lambda>x. x \<noteq> ROW_DELIMITER"
  let ?w = "take n (drop a data)"
  have len: "length ?w = n"
    using assms(2) by simp
  have all: "\<forall>x\<in>set ?w. ?P x"
    using takeWhile_all(2) [of ?P ?w] assms(1) len by simp
  have "drop (a + n) data = drop n (drop a data)"
    by (simp add: add.commute)
  then have sp: "drop a data = ?w @ drop (a + n) data"
    by (simp only: append_take_drop_id)
  have "takeWhile ?P (?w @ drop (a + n) data) = ?w @ takeWhile ?P (drop (a + n) data)"
    by (rule takeWhile_append2) (use all in blast)
  then have "takeWhile ?P (drop a data) = ?w @ takeWhile ?P (drop (a + n) data)"
    using sp by simp
  then have "length (takeWhile ?P (drop a data)) = n + length (takeWhile ?P (drop (a + n) data))"
    using len by simp
  then show ?thesis
    using assms(2) by (simp add: skip_line_def Let_def) arith
qed

lemma SkipLine_at:
  "reading data a s \<Longrightarrow>
     \<exists>s'. SkipLine s = Inr s' \<and> at data (skip_line data a) s' \<and> kept s s'"
proof (induction "todo s" arbitrary: s a rule: less_induct)
  case less
  note w = \<open>reading data a s\<close>
  obtain p e where pe: "m_pos s = Some p" "m_bufferEnd s = Some e"
    using w by (rule reading_pointers)
  note win = reading_window [OF w pe]
  define n where "n = e - p"
  define rest where "rest = drop a data"
  define k where "k = length (takeWhile (\<lambda>x. x \<noteq> ROW_DELIMITER) (take n rest))"
  have nl: "n \<le> length rest"
    using win(4) by (simp add: n_def rest_def)
  have mem: "memchr (m_buffer s) (m_pos s) ROW_DELIMITER (m_bufferEnd s)
      = Inr (if k < n then Some (p + k) else None)"
    using memchr_window [OF w pe] by (simp add: k_def n_def rest_def Let_def)
  have nd: "\<not> m_done s"
    using w by (rule reading_not_done)
  have fp: "f_pos (m_file s) = a + n"
    using win(5) by (simp add: n_def)
  note unfold = SkipLine.simps [of s]
  show ?case
  proof (cases "k < n")
    case False
    obtain s1 where s1: "RefillBuffer (s\<lparr>m_pos := None\<rparr>) = Inr s1"
      and at1: "at data (a + n) s1" and k1: "kept s s1"
      using RefillBuffer_at [OF w, of None] unfolding fp by blast
    have run: "SkipLine s = SkipLine s1"
      using nd mem False s1 by (simp add: unfold)
    have an: "a + n \<le> length data"
      using win(4) by (simp add: n_def)
    have sk: "skip_line data (a + n) = skip_line data a"
      using False an by (intro skip_line_window) (simp_all add: k_def rest_def)
    show ?thesis
    proof (cases "a + n < length data")
      case True
      then have w1: "reading data (a + n) s1"
        using at1 by (simp add: at_def)
      have "todo s1 < todo s"
      proof -
        have "todo (s\<lparr>m_pos := None\<rparr>) \<le> todo s"
          using pe by (simp add: todo_def left_in_buffer_def)
        moreover have "todo s1 < todo (s\<lparr>m_pos := None\<rparr>)"
          using s1 nd by (intro RefillBuffer_todo_less) simp_all
        ultimately show ?thesis by simp
      qed
      from less.hyps [OF this w1] obtain s' where
        "SkipLine s1 = Inr s'" "at data (skip_line data (a + n)) s'" "kept s1 s'"
        by blast
      then show ?thesis
        using run sk kept_trans [OF k1] by auto
    next
      case False
      then have f1: "fin data s1" and an: "a + n = length data"
        using at1 an by (simp_all add: at_def)
      have "SkipLine s1 = Inr s1"
        using f1 by (simp add: SkipLine.simps [of s1] fin_def)
      moreover have "skip_line data (a + n) = length data"
        using an by (simp add: skip_line_def)
      ultimately show ?thesis
        using run sk k1 f1 by (simp add: at_def)
    qed
  next
    case True
    have tw: "takeWhile (\<lambda>x. x \<noteq> ROW_DELIMITER) rest
        = takeWhile (\<lambda>x. x \<noteq> ROW_DELIMITER) (take n rest)"
      using k_def True nl by (rule takeWhile_window)
    have klen: "k < length rest"
      using True nl by simp
    have sk: "skip_line data a = a + k + 1"
      using tw klen by (simp add: skip_line_def k_def rest_def Let_def)
    have pk: "p + Suc k \<le> e"
      using True by (simp add: n_def)
    have w1: "reading data (a + Suc k) (s\<lparr>m_pos := Some (p + Suc k)\<rparr>)"
      using w pe pk by (rule reading_advance)
    show ?thesis
    proof (cases "Suc (p + k) = e")
      case False
      then have "SkipLine s = Inr (s\<lparr>m_pos := Some (Suc (p + k))\<rparr>)"
        using nd mem True pe by (simp add: unfold)
      moreover have "a + Suc k < length data"
        using False pk win(4) by arith
      ultimately show ?thesis
        using w1 sk by (simp add: at_def kept_def)
    next
      case eq: True
      obtain s1 where s1: "RefillBuffer (s\<lparr>m_pos := Some (Suc (p + k))\<rparr>) = Inr s1"
        and at1: "at data (a + n) s1" and k1: "kept s s1"
        using RefillBuffer_at [OF w, of "Some (Suc (p + k))"] unfolding fp by blast
      have "SkipLine s = Inr s1"
        using nd mem True pe eq s1 by (simp add: unfold)
      moreover have "a + n = a + k + 1"
        using eq pk by (simp add: n_def)
      ultimately show ?thesis
        using at1 k1 sk by simp
    qed
  qed
qed


definition keychar :: "bool \<Rightarrow> char \<Rightarrow> bool" where
  "keychar numeric c = (if numeric then isdigit c else \<not> isspace c)"

definition acc_id :: "bool \<Rightarrow> size_t \<Rightarrow> string \<Rightarrow> size_t" where
  "acc_id numeric ident ks =
     (if numeric then foldl (\<lambda>i c. i * 10 + (of_char c - 48)) ident ks else ident)"

definition acc_key :: "bool \<Rightarrow> string \<Rightarrow> string \<Rightarrow> string" where
  "acc_key numeric key ks = (if numeric then key else key @ ks)"

definition resolve ::
  "bool \<Rightarrow> bool \<Rightarrow> size_t \<Rightarrow> string \<Rightarrow> StringToIdMap \<Rightarrow> size_t \<times> StringToIdMap" where
  "resolve numeric found ident key mapping =
     (if numeric \<or> \<not> found then (ident, mapping) else id_of_key mapping key)"

lemma reading_head:
  assumes "reading data a s" "m_pos s = Some p" "m_bufferEnd s = Some e" "p < e"
  shows "m_buffer s ! p = data ! a" and "a < length data" and "p < length (m_buffer s)"
proof -
  note win = reading_window [OF assms(1-3)]
  show a: "a < length data" and p: "p < length (m_buffer s)"
    using win assms(4) by simp_all
  have "take (e - p) (drop p (m_buffer s)) ! 0 = take (e - p) (drop a data) ! 0"
    using win(1) by simp
  then show "m_buffer s ! p = data ! a"
    using assms(4) a p by simp
qed

definition scanned ::
  "bool \<Rightarrow> bool \<Rightarrow> size_t \<Rightarrow> string \<Rightarrow> StringToIdMap \<Rightarrow> Indexer \<Rightarrow> nat \<Rightarrow> nat \<Rightarrow> string
     \<Rightarrow> error + (bool option \<times> bool \<times> size_t \<times> string \<times> StringToIdMap \<times> Indexer)" where
  "scanned numeric found ident key mapping s p n ks =
     (let found' = (found \<or> ks \<noteq> []);
          ident' = acc_id numeric ident ks;
          key' = acc_key numeric key ks
      in if length ks < n then
           (case resolve numeric found' ident' key' mapping of
              (i, mapping') \<Rightarrow>
                Inr (Some found', found', i, key', mapping', s\<lparr>m_pos := Some (p + length ks)\<rparr>))
         else Inr (None, found', ident', key', mapping, s\<lparr>m_pos := Some (p + n)\<rparr>))"

lemma TryGetSequenceId_scan_window:
  assumes "reading data a s" "m_pos s = Some p" "m_bufferEnd s = Some e" "e - p = n"
  shows "TryGetSequenceId_scan found ident key mapping s =
     scanned (m_numericSequenceId s) found ident key mapping s p n
       (takeWhile (keychar (m_numericSequenceId s)) (take n (drop a data)))"
  using assms
proof (induction n arbitrary: s a p found ident key)
  case 0
  then have "p = e"
    using reading_window(2) [OF 0(1-3)] by simp
  then have "m_pos s = m_bufferEnd s" "s\<lparr>m_pos := Some p\<rparr> = s"
    using 0 by simp_all
  then show ?case
    by (simp add: TryGetSequenceId_scan.simps [of found ident key mapping s] scanned_def
        acc_id_def acc_key_def)
next
  case (Suc m)
  let ?num = "m_numericSequenceId s"
  have lt: "p < e"
    using Suc.prems by simp
  note hd = reading_head [OF Suc.prems(1-3) lt]
  define c where "c = data ! a"
  have ne: "m_pos s \<noteq> m_bufferEnd s"
    using Suc.prems lt by simp
  have de: "deref s (m_pos s) = Inr c"
    using Suc.prems hd by (simp add: deref_def c_def)
  have tk: "take (Suc m) (drop a data) = c # take m (drop (Suc a) data)"
    using hd(2) by (simp add: c_def take_Suc_conv_app_nth Cons_nth_drop_Suc [symmetric])
  note unfold = TryGetSequenceId_scan.simps [of found ident key mapping s]
  show ?case
  proof (cases "keychar ?num c")
    case False
    then have ks: "takeWhile (keychar ?num) (take (Suc m) (drop a data)) = []"
      by (simp add: tk)
    have same: "s\<lparr>m_pos := Some p\<rparr> = s"
      using Suc.prems by simp
    show ?thesis
    proof (cases ?num)
      case num: True
      then have "\<not> isdigit c"
        using False by (simp add: keychar_def)
      then have "TryGetSequenceId_scan found ident key mapping s
          = Inr (Some found, found, ident, key, mapping, s)"
        using ne de num by (simp add: unfold)
      moreover have "scanned ?num found ident key mapping s p (Suc m) []
          = Inr (Some found, found, ident, key, mapping, s)"
        using num same by (simp add: scanned_def acc_id_def acc_key_def resolve_def)
      ultimately show ?thesis
        unfolding ks by simp
    next
      case textual: False
      then have "isspace c"
        using \<open>\<not> keychar ?num c\<close> by (simp add: keychar_def)
      then have "TryGetSequenceId_scan found ident key mapping s
          = (case resolve False found ident key mapping of
               (i, mapping') \<Rightarrow> Inr (Some found, found, i, key, mapping', s))"
        using ne de textual
        by (simp add: unfold resolve_def id_of_key_def split: option.splits)
      moreover have "scanned ?num found ident key mapping s p (Suc m) []
          = (case resolve False found ident key mapping of
               (i, mapping') \<Rightarrow> Inr (Some found, found, i, key, mapping', s))"
        using textual same by (simp add: scanned_def acc_id_def acc_key_def)
      ultimately show ?thesis
        unfolding ks by simp
    qed
  next
    case True
    let ?s1 = "s\<lparr>m_pos := Some (Suc p)\<rparr>"
    let ?ks' = "takeWhile (keychar ?num) (take m (drop (Suc a) data))"
    have ks: "takeWhile (keychar ?num) (take (Suc m) (drop a data)) = c # ?ks'"
      using True by (simp add: tk)
    have "p + 1 \<le> e"
      using lt by simp
    with Suc.prems(1-3) have w1: "reading data (a + 1) (s\<lparr>m_pos := Some (p + 1)\<rparr>)"
      by (rule reading_advance)
    then have w1': "reading data (Suc a) ?s1"
      by simp
    have e1: "e - Suc p = m"
      using Suc.prems by simp
    have ih: "\<And>found ident key. TryGetSequenceId_scan found ident key mapping ?s1
        = scanned ?num found ident key mapping ?s1 (Suc p) m ?ks'"
      using Suc.IH [OF w1' _ _ e1] Suc.prems by simp
    show ?thesis
    proof (cases ?num)
      case num: True
      then have "isdigit c"
        using \<open>keychar ?num c\<close> by (simp add: keychar_def)
      then have "TryGetSequenceId_scan found ident key mapping s
          = TryGetSequenceId_scan True (ident * 10 + (of_char c - 48)) key mapping ?s1"
        using ne de num Suc.prems(2) by (simp add: unfold)
      then show ?thesis
        unfolding ks ih by (simp add: scanned_def acc_id_def acc_key_def Let_def num)
    next
      case textual: False
      then have "\<not> isspace c"
        using \<open>keychar ?num c\<close> by (simp add: keychar_def)
      then have "TryGetSequenceId_scan found ident key mapping s
          = TryGetSequenceId_scan True ident (key @ [c]) mapping ?s1"
        using ne de textual Suc.prems(2) by (simp add: unfold)
      then show ?thesis
        unfolding ks ih by (simp add: scanned_def acc_id_def acc_key_def Let_def textual)
    qed
  qed
qed


definition read_key ::
  "bool \<Rightarrow> bool \<Rightarrow> size_t \<Rightarrow> string \<Rightarrow> StringToIdMap \<Rightarrow> string
     \<Rightarrow> (bool \<times> size_t \<times> StringToIdMap) option" where
  "read_key numeric found ident key mapping rest =
     (let ks = takeWhile (keychar numeric) rest;
          found' = (found \<or> ks \<noteq> [])
      in if length ks < length rest then
           (case resolve numeric found' (acc_id numeric ident ks) (acc_key numeric key ks)
                   mapping of
              (i, mapping') \<Rightarrow> Some (found', i, mapping'))
         else None)"

lemma read_key_append:
  assumes "\<forall>x\<in>set w. keychar numeric x"
  shows "read_key numeric found ident key mapping (w @ r)
     = read_key numeric (found \<or> w \<noteq> []) (acc_id numeric ident w) (acc_key numeric key w)
         mapping r"
proof -
  have "takeWhile (keychar numeric) (w @ r) = w @ takeWhile (keychar numeric) r"
    by (rule takeWhile_append2) (use assms in blast)
  then show ?thesis
    by (auto simp: read_key_def Let_def acc_id_def acc_key_def)
qed

definition key_ok ::
  "string \<Rightarrow> nat \<Rightarrow> Indexer \<Rightarrow> StringToIdMap
     \<Rightarrow> error + (bool \<times> size_t \<times> StringToIdMap \<times> Indexer)
     \<Rightarrow> (bool \<times> size_t \<times> StringToIdMap) option \<Rightarrow> bool" where
  "key_ok data a' s mapping r t =
     (case t of
        Some (f, i, mapping') \<Rightarrow>
          (\<exists>s'. r = Inr (f, i, mapping', s') \<and> reading data a' s' \<and> kept s s')
      | None \<Rightarrow> (\<exists>i s'. r = Inr (False, i, mapping, s') \<and> fin data s' \<and> kept s s'))"

lemma TryGetSequenceId_loop_stream:
  "reading data a s \<Longrightarrow>
     key_ok data (a + length (takeWhile (keychar (m_numericSequenceId s)) (drop a data))) s
       mapping (TryGetSequenceId_loop found ident key mapping s)
       (read_key (m_numericSequenceId s) found ident key mapping (drop a data))"
proof (induction "todo s" arbitrary: s a found ident key rule: less_induct)
  case less
  note w = \<open>reading data a s\<close>
  obtain p e where pe: "m_pos s = Some p" "m_bufferEnd s = Some e"
    using w by (rule reading_pointers)
  note win = reading_window [OF w pe]
  let ?num = "m_numericSequenceId s"
  define n where "n = e - p"
  define rest where "rest = drop a data"
  define ks where "ks = takeWhile (keychar ?num) (take n rest)"
  have nl: "n \<le> length rest" and an: "a + n \<le> length data"
    using win(4) by (simp_all add: n_def rest_def)
  have nd: "\<not> m_done s"
    using w by (rule reading_not_done)
  have fp: "f_pos (m_file s) = a + n"
    using win(5) by (simp add: n_def)
  have sc: "TryGetSequenceId_scan found ident key mapping s
      = scanned ?num found ident key mapping s p n ks"
    unfolding ks_def rest_def
    using w pe by (rule TryGetSequenceId_scan_window) (simp add: n_def)
  note unfold = TryGetSequenceId_loop.simps [of found ident key mapping s]
  show ?case
  proof (cases "length ks < n")
    case True
    have tw: "takeWhile (keychar ?num) rest = ks"
      unfolding ks_def using _ True nl by (rule takeWhile_window) (simp add: ks_def)
    obtain i mapping' where rs: "resolve ?num (found \<or> ks \<noteq> []) (acc_id ?num ident ks)
        (acc_key ?num key ks) mapping = (i, mapping')"
      by (cases "resolve ?num (found \<or> ks \<noteq> []) (acc_id ?num ident ks) (acc_key ?num key ks) mapping")
    have "p + length ks \<le> e"
      using True by (simp add: n_def)
    with w pe have w1: "reading data (a + length ks) (s\<lparr>m_pos := Some (p + length ks)\<rparr>)"
      by (rule reading_advance)
    have "TryGetSequenceId_loop found ident key mapping s
        = Inr (found \<or> ks \<noteq> [], i, mapping', s\<lparr>m_pos := Some (p + length ks)\<rparr>)"
      using nd True rs by (simp add: unfold sc scanned_def Let_def)
    moreover have "read_key ?num found ident key mapping rest = Some (found \<or> ks \<noteq> [], i, mapping')"
      using True nl rs by (simp add: read_key_def tw Let_def)
    ultimately show ?thesis
      using w1 by (simp add: key_ok_def rest_def [symmetric] tw kept_def)
  next
    case False
    have all: "takeWhile (keychar ?num) (take n rest) = take n rest"
      "\<forall>x\<in>set (take n rest). keychar ?num x"
      using takeWhile_all [of "keychar ?num" "take n rest"] False nl by (simp_all add: ks_def)
    have ksw: "ks = take n rest"
      unfolding ks_def by (rule all(1))
    have lks: "length ks = n"
      unfolding ksw using nl by simp
    let ?found = "found \<or> ks \<noteq> []"
    let ?ident = "acc_id ?num ident ks"
    let ?key = "acc_key ?num key ks"
    obtain s2 where s2: "RefillBuffer (s\<lparr>m_pos := Some (p + n)\<rparr>) = Inr s2"
      and at2: "at data (a + n) s2" and k2: "kept s s2"
      using RefillBuffer_at [OF w, of "Some (p + n)"] unfolding fp by blast
    have run: "TryGetSequenceId_loop found ident key mapping s
        = TryGetSequenceId_loop ?found ?ident ?key mapping s2"
      using nd False s2 by (simp add: unfold sc scanned_def Let_def)
    have d1: "drop (a + n) data = drop n rest"
      by (simp add: rest_def add.commute)
    have sp: "rest = ks @ drop (a + n) data"
      unfolding ksw d1 by simp
    have rk: "read_key ?num found ident key mapping rest
        = read_key ?num ?found ?ident ?key mapping (drop (a + n) data)"
    proof -
      have "\<forall>x\<in>set ks. keychar ?num x"
        using all(2) ksw by simp
      from read_key_append [OF this, of found ident key mapping "drop (a + n) data"]
      show ?thesis
        unfolding sp [symmetric] .
    qed
    have tw: "takeWhile (keychar ?num) rest
        = ks @ takeWhile (keychar ?num) (drop (a + n) data)"
    proof -
      have "takeWhile (keychar ?num) (ks @ drop (a + n) data)
          = ks @ takeWhile (keychar ?num) (drop (a + n) data)"
        by (rule takeWhile_append2) (use all(2) ksw in simp)
      then show ?thesis
        using sp by simp
    qed
    show ?thesis
    proof (cases "a + n < length data")
      case True
      then have w2: "reading data (a + n) s2"
        using at2 by (simp add: at_def)
      have "todo s2 < todo s"
      proof -
        have "left_in_buffer (s\<lparr>m_pos := Some (p + n)\<rparr>) \<le> left_in_buffer s"
          using pe by (simp add: left_in_buffer_def)
        then have "todo (s\<lparr>m_pos := Some (p + n)\<rparr>) \<le> todo s"
          by (simp add: todo_def)
        moreover have "todo s2 < todo (s\<lparr>m_pos := Some (p + n)\<rparr>)"
          using s2 nd by (intro RefillBuffer_todo_less) simp_all
        ultimately show ?thesis by simp
      qed
      from less.hyps [OF this w2, of ?found ?ident ?key]
      have "key_ok data (a + n + length (takeWhile (keychar ?num) (drop (a + n) data))) s2
          mapping (TryGetSequenceId_loop ?found ?ident ?key mapping s2)
          (read_key ?num ?found ?ident ?key mapping (drop (a + n) data))"
        using k2 by (simp add: kept_def)
      then show ?thesis
        unfolding run rest_def [symmetric] rk tw
        using k2 lks by (auto simp: key_ok_def kept_def add.assoc split: option.splits)
    next
      case False
      then have f2: "fin data s2" and emp: "drop (a + n) data = []"
        using at2 an by (simp_all add: at_def)
      have "TryGetSequenceId_loop ?found ?ident ?key mapping s2 = Inr (False, ?ident, mapping, s2)"
        using f2 by (simp add: TryGetSequenceId_loop.simps [of ?found ?ident ?key mapping s2] fin_def)
      moreover have "read_key ?num ?found ?ident ?key mapping [] = None"
        by (simp add: read_key_def)
      ultimately show ?thesis
        unfolding run rest_def [symmetric] rk emp
        using f2 k2 by (simp add: key_ok_def)
    qed
  qed
qed


lemma skip_line_gt: "skip_line data a < length data \<Longrightarrow> a < skip_line data a"
  by (simp add: skip_line_def Let_def split: if_splits)

function stream_keyed ::
  "string \<Rightarrow> bool \<Rightarrow> CorpusDescriptor \<Rightarrow> size_t \<Rightarrow> SequenceDescriptor \<Rightarrow> nat \<Rightarrow> sink
     \<Rightarrow> error + (CorpusDescriptor \<times> size_t \<times> SequenceDescriptor \<times> sink)" where
  "stream_keyed data numeric corpus currentKey sd a snk =
     (let a1 = skip_line data a;
          sd1 = sd\<lparr>m_numberOfSamples := m_numberOfSamples sd + 1\<rparr>
      in if a1 < length data then
           (case read_key numeric False 0 [] (stringRegistry corpus) (drop a1 data) of
              None \<Rightarrow> Inr (corpus, currentKey, sd1, snk)
            | Some (found, ident, mapping) \<Rightarrow>
                (let corpus1 = corpus\<lparr>stringRegistry := mapping\<rparr>;
                     a2 = a1 + length (takeWhile (keychar numeric) (drop a1 data))
                 in if found \<and> ident \<noteq> currentKey then
                      (case emit numeric currentKey
                              (sd1\<lparr>m_byteSize := int a1 - m_fileOffsetBytes sd1\<rparr>) corpus1 snk of
                         Inl e \<Rightarrow> Inl e
                       | Inr (corpus2, snk2) \<Rightarrow>
                           stream_keyed data numeric corpus2 ident
                             (empty_sd\<lparr>m_fileOffsetBytes := int a1\<rparr>) a2 snk2)
                    else stream_keyed data numeric corpus1 currentKey sd1 a2 snk))
         else Inr (corpus, currentKey, sd1, snk))"
  by pat_completeness auto
termination
proof (relation "measure (\<lambda>(data, numeric, corpus, currentKey, sd, a, snk). length data - a)",
    goal_cases)
  case 1
  show ?case by simp
next
  case (2 data numeric corpus currentKey sd a snk a1)
  then have "a < a1" "a1 < length data"
    using skip_line_gt [of data a] by simp_all
  then show ?case
    using 2 by simp
next
  case (3 data numeric corpus currentKey sd a snk a1)
  then have "a < a1" "a1 < length data"
    using skip_line_gt [of data a] by simp_all
  then show ?case
    using 3 by simp
qed

declare stream_keyed.simps [simp del]

definition keyed_ok ::
  "string \<Rightarrow> bool \<Rightarrow> error + (CorpusDescriptor \<times> size_t \<times> SequenceDescriptor \<times> Indexer)
     \<Rightarrow> error + (CorpusDescriptor \<times> size_t \<times> SequenceDescriptor \<times> sink) \<Rightarrow> bool" where
  "keyed_ok data numeric r t =
     (case t of
        Inl e \<Rightarrow> r = Inl e
      | Inr (corpus, currentKey, sd, ix, cl) \<Rightarrow>
          (\<exists>s'. r = Inr (corpus, currentKey, sd, s') \<and> fin data s' \<and> m_index s' = ix \<and>
                calls s' = cl \<and> m_numericSequenceId s' = numeric))"


lemma corpus_same [simp]: "corpus\<lparr>stringRegistry := stringRegistry corpus\<rparr> = corpus"
  by simp

lemma Build_loop_done: "m_done s \<Longrightarrow> Build_loop corpus k sd s = Inr (corpus, k, sd, s)"
  by (simp add: Build_loop.simps [of corpus k sd s])

lemma Build_loop_stream:
  "reading data a s \<Longrightarrow>
     keyed_ok data (m_numericSequenceId s) (Build_loop corpus currentKey sd s)
       (stream_keyed data (m_numericSequenceId s) corpus currentKey sd a (m_index s, calls s))"
proof (induction "todo s" arbitrary: s a corpus currentKey sd rule: less_induct)
  case less
  note w = \<open>reading data a s\<close>
  let ?num = "m_numericSequenceId s"
  have nd: "\<not> m_done s"
    using w by (rule reading_not_done)
  define a1 where "a1 = skip_line data a"
  let ?sd1 = "sd\<lparr>m_numberOfSamples := m_numberOfSamples sd + 1\<rparr>"
  obtain s1 where s1: "SkipLine s = Inr s1" and at1: "at data a1 s1" and k1: "kept s s1"
    using SkipLine_at [OF w] unfolding a1_def by blast
  have t1: "todo s1 < todo s"
    using s1 nd by (rule SkipLine_todo)
  note unfold = Build_loop.simps [of corpus currentKey sd s]
  note sunfold = stream_keyed.simps [of data ?num corpus currentKey sd a "(m_index s, calls s)"]
  have n1: "m_numericSequenceId s1 = ?num" and i1: "m_index s1 = m_index s"
    and c1: "calls s1 = calls s"
    using k1 by (simp_all add: kept_def)
  show ?case
  proof (cases "a1 < length data")
    case False
    then have f1: "fin data s1"
      using at1 by (simp add: at_def)
    then have d1: "m_done s1"
      by (simp add: fin_def)
    have "Build_loop corpus currentKey sd s = Build_loop corpus currentKey ?sd1 s1"
      using nd s1 d1 by (simp add: unfold Let_def)
    also have "\<dots> = Inr (corpus, currentKey, ?sd1, s1)"
      using d1 by (rule Build_loop_done)
    finally have "Build_loop corpus currentKey sd s = Inr (corpus, currentKey, ?sd1, s1)" .
    moreover have "stream_keyed data ?num corpus currentKey sd a (m_index s, calls s)
        = Inr (corpus, currentKey, ?sd1, m_index s, calls s)"
      using False by (simp add: sunfold Let_def a1_def)
    ultimately show ?thesis
      using f1 n1 i1 c1 by (simp add: keyed_ok_def)
  next
    case True
    then have w1: "reading data a1 s1"
      using at1 by (simp add: at_def)
    have nd1: "\<not> m_done s1"
      using w1 by (rule reading_not_done)
    have off: "GetFileOffset s1 = int a1"
      using w1 by (rule reading_GetFileOffset)
    define a2 where "a2 = a1 + length (takeWhile (keychar ?num) (drop a1 data))"
    define rk where "rk = read_key ?num False 0 [] (stringRegistry corpus) (drop a1 data)"
    have ko: "key_ok data a2 s1 (stringRegistry corpus)
        (TryGetSequenceId (stringRegistry corpus) s1) rk"
      using TryGetSequenceId_loop_stream [OF w1, of "stringRegistry corpus" False 0 "[]"]
      by (simp add: TryGetSequenceId_def n1 a2_def rk_def)
    show ?thesis
    proof (cases rk)
      case None
      then obtain i s2 where s2: "TryGetSequenceId (stringRegistry corpus) s1
          = Inr (False, i, stringRegistry corpus, s2)" and f2: "fin data s2" and k2: "kept s1 s2"
        using ko by (auto simp: key_ok_def)
      have d2: "m_done s2"
        using f2 by (simp add: fin_def)
      have "Build_loop corpus currentKey sd s = Build_loop corpus currentKey ?sd1 s2"
        using nd s1 nd1 s2 by (simp add: unfold Let_def)
      also have "\<dots> = Inr (corpus, currentKey, ?sd1, s2)"
        using d2 by (rule Build_loop_done)
      finally have "Build_loop corpus currentKey sd s = Inr (corpus, currentKey, ?sd1, s2)" .
      moreover have "stream_keyed data ?num corpus currentKey sd a (m_index s, calls s)
          = Inr (corpus, currentKey, ?sd1, m_index s, calls s)"
        using True None by (simp add: sunfold Let_def a1_def [symmetric] rk_def [symmetric])
      ultimately show ?thesis
        using f2 k2 n1 i1 c1 by (simp add: keyed_ok_def kept_def)
    next
      case (Some res)
      obtain found ident mapping where res: "res = (found, ident, mapping)"
        by (cases res) auto
      obtain s2 where s2: "TryGetSequenceId (stringRegistry corpus) s1
          = Inr (found, ident, mapping, s2)" and w2: "reading data a2 s2" and k2: "kept s1 s2"
        using ko Some res by (auto simp: key_ok_def)
      have n2: "m_numericSequenceId s2 = ?num" and i2: "m_index s2 = m_index s"
        and c2: "calls s2 = calls s"
        using k2 n1 i1 c1 by (simp_all add: kept_def)
      have t2: "todo s2 \<le> todo s1"
        using s2 unfolding TryGetSequenceId_def by (rule TryGetSequenceId_loop_todo)
      let ?corpus1 = "corpus\<lparr>stringRegistry := mapping\<rparr>"
      show ?thesis
      proof (cases "found \<and> ident \<noteq> currentKey")
        case False
        have run: "Build_loop corpus currentKey sd s = Build_loop ?corpus1 currentKey ?sd1 s2"
          using nd s1 nd1 s2 False
          by (cases found) (simp_all add: unfold Let_def)
        have str: "stream_keyed data ?num corpus currentKey sd a (m_index s, calls s)
            = stream_keyed data ?num ?corpus1 currentKey ?sd1 a2 (m_index s, calls s)"
          using True Some res False
          by (cases found) (simp_all add: sunfold Let_def a1_def [symmetric]
              rk_def [symmetric] a2_def)
        have "todo s2 < todo s"
          using t1 t2 by simp
        from less.hyps [OF this w2, of ?corpus1 currentKey ?sd1] show ?thesis
          unfolding run str by (simp add: n2 i2 c2)
      next
        case new: True
        let ?sdc = "?sd1\<lparr>m_byteSize := int a1 - m_fileOffsetBytes ?sd1\<rparr>"
        show ?thesis
        proof (cases "emit ?num currentKey ?sdc ?corpus1 (m_index s, calls s)")
          case (Inl err)
          have "Build_loop corpus currentKey sd s = Inl err"
            using nd s1 nd1 s2 new Inl off
            by (simp add: unfold Let_def
                AddSequenceIfIncluded_emit n2 i2 c2)
          moreover have "stream_keyed data ?num corpus currentKey sd a (m_index s, calls s) = Inl err"
            using True Some res new Inl
            by (simp add: sunfold Let_def a1_def [symmetric]
                rk_def [symmetric])
          ultimately show ?thesis
            by (simp add: keyed_ok_def)
        next
          case (Inr out)
          obtain corpus2 ix cl where out: "out = (corpus2, ix, cl)"
            by (cases out) auto
          let ?s3 = "s2\<lparr>calls := cl, m_index := ix\<rparr>"
          let ?sd = "empty_sd\<lparr>m_fileOffsetBytes := int a1\<rparr>"
          have run: "Build_loop corpus currentKey sd s = Build_loop corpus2 ident ?sd ?s3"
            using nd s1 nd1 s2 new Inr out off
            by (simp add: unfold Let_def
                AddSequenceIfIncluded_emit n2 i2 c2)
          have str: "stream_keyed data ?num corpus currentKey sd a (m_index s, calls s)
              = stream_keyed data ?num corpus2 ident ?sd a2 (ix, cl)"
            using True Some res new Inr out
            by (simp add: sunfold Let_def a1_def [symmetric]
                rk_def [symmetric] a2_def)
          have w3: "reading data a2 ?s3"
            using w2 by simp
          have "todo ?s3 = todo s2"
            by (simp add: todo_def left_in_buffer_def)
          then have "todo ?s3 < todo s"
            using t1 t2 by simp
          from less.hyps [OF this w3, of corpus2 ident ?sd] show ?thesis
            unfolding run str by (simp add: n2)
        qed
      qed
    qed
  qed
qed


definition observed ::
  "error + (CorpusDescriptor \<times> Indexer) \<Rightarrow> error + (CorpusDescriptor \<times> sink)" where
  "observed r = map_sum (\<lambda>e. e) (\<lambda>(corpus, s). (corpus, m_index s, calls s)) r"

lemma observed_emit:
  "observed (AddSequenceIfIncluded k corpus k sd s)
     = emit (m_numericSequenceId s) k sd corpus (m_index s, calls s)"
  by (cases "emit (m_numericSequenceId s) k sd corpus (m_index s, calls s)")
    (auto simp: observed_def AddSequenceIfIncluded_emit)

definition stream_BuildFromLines ::
  "bool \<Rightarrow> string \<Rightarrow> CorpusDescriptor \<Rightarrow> nat \<Rightarrow> sink \<Rightarrow> error + (CorpusDescriptor \<times> sink)" where
  "stream_BuildFromLines numeric data corpus a snk =
     (case stream_lines numeric corpus 0 (int a) (int a) (drop a data) snk of
        Inl e \<Rightarrow> Inl e
      | Inr (corpus1, lines1, offset1, snk1) \<Rightarrow>
          if offset1 < int (length data) then
            emit numeric lines1 (line_sd offset1 (int (length data))) corpus1 snk1
          else Inr (corpus1, snk1))"

definition stream_BuildKeyed ::
  "bool \<Rightarrow> string \<Rightarrow> CorpusDescriptor \<Rightarrow> nat \<Rightarrow> sink \<Rightarrow> error + (CorpusDescriptor \<times> sink)" where
  "stream_BuildKeyed numeric data corpus a snk =
     (case read_key numeric False 0 [] (stringRegistry corpus) (drop a data) of
        None \<Rightarrow> Inl (ExpectedSequenceId (int a))
      | Some (found, ident, mapping) \<Rightarrow>
          if \<not> found then Inl (ExpectedSequenceId (int a))
          else
            (case stream_keyed data numeric (corpus\<lparr>stringRegistry := mapping\<rparr>) ident
                    (empty_sd\<lparr>m_fileOffsetBytes := int a\<rparr>)
                    (a + length (takeWhile (keychar numeric) (drop a data))) snk of
               Inl e \<Rightarrow> Inl e
             | Inr (corpus1, currentKey, sd, snk1) \<Rightarrow>
                 emit numeric currentKey
                   (sd\<lparr>m_byteSize := int (length data) - m_fileOffsetBytes sd\<rparr>) corpus1 snk1))"

lemma BuildFromLines_stream:
  assumes "reading data a s"
  shows "observed (BuildFromLines corpus s)
     = stream_BuildFromLines (m_numericSequenceId s) data corpus a (m_index s, calls s)"
proof -
  let ?s = "s\<lparr>m_hasSequenceIds := False\<rparr>"
  let ?num = "m_numericSequenceId s"
  have w: "reading data a ?s"
    using assms by (simp add: reading_def)
  have off: "GetFileOffset ?s = int a"
    using w by (rule reading_GetFileOffset)
  have ok: "lines_ok data ?num (BuildFromLines_loop corpus 0 (int a) ?s)
      (stream_lines ?num corpus 0 (int a) (int a) (drop a data) (m_index s, calls s))"
    using BuildFromLines_loop_stream [OF w, of corpus 0 "int a"] by simp
  show ?thesis
  proof (cases "stream_lines ?num corpus 0 (int a) (int a) (drop a data) (m_index s, calls s)")
    case (Inl e)
    then show ?thesis
      using ok by (simp add: lines_ok_def BuildFromLines_def off stream_BuildFromLines_def
          observed_def)
  next
    case (Inr res)
    obtain corpus1 lines1 offset1 ix cl where res: "res = (corpus1, lines1, offset1, ix, cl)"
      by (cases res) auto
    obtain s' where run: "BuildFromLines_loop corpus 0 (int a) ?s = Inr (corpus1, lines1, offset1, s')"
      and f: "fin data s'" and i: "m_index s' = ix" and c: "calls s' = cl"
      and n: "m_numericSequenceId s' = ?num"
      using ok Inr res by (auto simp: lines_ok_def)
    have fe: "m_fileOffsetEnd s' = int (length data)"
      using f by (simp add: fin_def)
    show ?thesis
    proof (cases "offset1 < int (length data)")
      case True
      have "BuildFromLines corpus s
          = AddSequenceIfIncluded lines1 corpus1 lines1 (line_sd offset1 (int (length data))) s'"
        using run True fe by (simp add: BuildFromLines_def off Let_def line_sd_def)
      then show ?thesis
        using Inr res True i c n by (simp add: observed_emit stream_BuildFromLines_def)
    next
      case False
      have "BuildFromLines corpus s = Inr (corpus1, s')"
        using run False fe by (simp add: BuildFromLines_def off Let_def)
      then show ?thesis
        using Inr res False i c by (simp add: observed_def stream_BuildFromLines_def)
    qed
  qed
qed


text \<open>The key-grouped part of \<open>Build\<close>, from the first key on.\<close>

lemma Build_keyed_stream:
  assumes w: "reading data a s"
  shows "observed
     (case TryGetSequenceId (stringRegistry corpus) s of
        Inl e \<Rightarrow> Inl e
      | Inr (found, ident, mapping, s3) \<Rightarrow>
          if \<not> found then Inl (ExpectedSequenceId (int a))
          else
            (case Build_loop (corpus\<lparr>stringRegistry := mapping\<rparr>) ident
                    (empty_sd\<lparr>m_fileOffsetBytes := int a\<rparr>) s3 of
               Inl e \<Rightarrow> Inl e
             | Inr (corpus1, currentKey, sd, s4) \<Rightarrow>
                 AddSequenceIfIncluded currentKey corpus1 currentKey
                   (sd\<lparr>m_byteSize := m_fileOffsetEnd s4 - m_fileOffsetBytes sd\<rparr>) s4))
     = stream_BuildKeyed (m_numericSequenceId s) data corpus a (m_index s, calls s)"
proof -
  let ?num = "m_numericSequenceId s"
  define a2 where "a2 = a + length (takeWhile (keychar ?num) (drop a data))"
  define rk where "rk = read_key ?num False 0 [] (stringRegistry corpus) (drop a data)"
  have ko: "key_ok data a2 s (stringRegistry corpus)
      (TryGetSequenceId (stringRegistry corpus) s) rk"
    using TryGetSequenceId_loop_stream [OF w, of "stringRegistry corpus" False 0 "[]"]
    by (simp add: TryGetSequenceId_def a2_def rk_def)
  show ?thesis
  proof (cases rk)
    case None
    then obtain i s3 where "TryGetSequenceId (stringRegistry corpus) s
        = Inr (False, i, stringRegistry corpus, s3)"
      using ko by (auto simp: key_ok_def)
    then show ?thesis
      using None by (simp add: stream_BuildKeyed_def rk_def [symmetric] observed_def)
  next
    case (Some res)
    obtain found ident mapping where res: "res = (found, ident, mapping)"
      by (cases res) auto
    obtain s3 where s3: "TryGetSequenceId (stringRegistry corpus) s
        = Inr (found, ident, mapping, s3)" and w3: "reading data a2 s3" and k3: "kept s s3"
      using ko Some res by (auto simp: key_ok_def)
    have n3: "m_numericSequenceId s3 = ?num" and i3: "m_index s3 = m_index s"
      and c3: "calls s3 = calls s"
      using k3 by (simp_all add: kept_def)
    show ?thesis
    proof (cases found)
      case False
      then show ?thesis
        using s3 Some res by (simp add: stream_BuildKeyed_def rk_def [symmetric] observed_def)
    next
      case True
      let ?corpus = "corpus\<lparr>stringRegistry := mapping\<rparr>"
      let ?sd = "empty_sd\<lparr>m_fileOffsetBytes := int a\<rparr>"
      have ok: "keyed_ok data ?num (Build_loop ?corpus ident ?sd s3)
          (stream_keyed data ?num ?corpus ident ?sd a2 (m_index s, calls s))"
        using Build_loop_stream [OF w3, of ?corpus ident ?sd] by (simp add: n3 i3 c3)
      show ?thesis
      proof (cases "stream_keyed data ?num ?corpus ident ?sd a2 (m_index s, calls s)")
        case (Inl e)
        then have "Build_loop ?corpus ident ?sd s3 = Inl e"
          using ok by (simp add: keyed_ok_def)
        then show ?thesis
          using s3 Some res True Inl
          by (simp add: stream_BuildKeyed_def rk_def [symmetric] a2_def [symmetric] observed_def)
      next
        case (Inr out)
        obtain corpus1 currentKey sd ix cl where out: "out = (corpus1, currentKey, sd, ix, cl)"
          by (cases out) auto
        obtain s4 where run: "Build_loop ?corpus ident ?sd s3 = Inr (corpus1, currentKey, sd, s4)"
          and f: "fin data s4" and i: "m_index s4 = ix" and c: "calls s4 = cl"
          and n: "m_numericSequenceId s4 = ?num"
          using ok Inr out by (auto simp: keyed_ok_def)
        have fe: "m_fileOffsetEnd s4 = int (length data)"
          using f by (simp add: fin_def)
        show ?thesis
          using s3 Some res True Inr out run fe i c n
          by (simp add: stream_BuildKeyed_def rk_def [symmetric] a2_def [symmetric]
              observed_emit)
      qed
    qed
  qed
qed

definition BOM :: string where
  "BOM = [CHR 0xEF, CHR 0xBB, CHR 0xBF]"

definition bom_seen :: "nat \<Rightarrow> string \<Rightarrow> bool" where
  "bom_seen bufferSize data \<longleftrightarrow> 3 < min bufferSize (length data) \<and> take 3 data = BOM"

definition stream_Build ::
  "bool \<Rightarrow> bool \<Rightarrow> bool \<Rightarrow> char \<Rightarrow> string \<Rightarrow> CorpusDescriptor \<Rightarrow> Index
     \<Rightarrow> error + (CorpusDescriptor \<times> sink)" where
  "stream_Build bom hasSequenceIds numeric streamPrefix data corpus ix =
     (if data = [] then Inl InputFileEmpty
      else
        (let a = (if bom then 3 else 0);
             snk = (Reserve (length data) ix, [])
         in if \<not> hasSequenceIds \<or> data ! a = streamPrefix then
              stream_BuildFromLines numeric data corpus a snk
            else stream_BuildKeyed numeric data corpus a snk))"

lemma take3:
  assumes "3 < length data"
  shows "take 3 data = [data ! 0, data ! 1, data ! 2]"
proof -
  obtain x y z rest where "data = x # y # z # rest"
    using assms by (cases data; cases "tl data"; cases "tl (tl data)") auto
  then show ?thesis
    by simp
qed


lemma Build_empty:
  assumes "IsEmpty (m_index s0)"
    and "RefillBuffer (s0\<lparr>m_index := Reserve (filesize (m_file s0)) (m_index s0)\<rparr>) = Inr s1"
    and "m_done s1"
  shows "Build corpus s0 = Inl InputFileEmpty"
  using assms by (simp add: Build_def)

lemma Build_unfold:
  assumes "IsEmpty (m_index s0)"
    and "RefillBuffer (s0\<lparr>m_index := Reserve (filesize (m_file s0)) (m_index s0)\<rparr>) = Inr s1"
    and "\<not> m_done s1" and "has_BOM s1 = Inr bom"
    and "s2 = (if bom then
        s1\<lparr>m_pos := map_option (\<lambda>p. p + 3) (m_pos s1),
           m_fileOffsetStart := m_fileOffsetStart s1 + 3,
           m_bufferStart := map_option (\<lambda>p. p + 3) (m_bufferStart s1)\<rparr>
      else s1)"
    and "lines_only s2 = Inr l" and "GetFileOffset s2 = offset"
  shows "Build corpus s0 =
     (if l then BuildFromLines corpus s2
      else
        (case TryGetSequenceId (stringRegistry corpus) s2 of
           Inl e \<Rightarrow> Inl e
         | Inr (found, ident, mapping, s3) \<Rightarrow>
             if \<not> found then Inl (ExpectedSequenceId offset)
             else
               (case Build_loop (corpus\<lparr>stringRegistry := mapping\<rparr>) ident
                       (empty_sd\<lparr>m_fileOffsetBytes := offset\<rparr>) s3 of
                  Inl e \<Rightarrow> Inl e
                | Inr (corpus1, currentKey, sd, s4) \<Rightarrow>
                    AddSequenceIfIncluded currentKey corpus1 currentKey
                      (sd\<lparr>m_byteSize := m_fileOffsetEnd s4 - m_fileOffsetBytes sd\<rparr>) s4)))"
proof -
  have "Build corpus s0 =
     (case lines_only s2 of
        Inl e \<Rightarrow> Inl e
      | Inr True \<Rightarrow> BuildFromLines corpus s2
      | Inr False \<Rightarrow>
          (let offset = GetFileOffset s2
           in case TryGetSequenceId (stringRegistry corpus) s2 of
                Inl e \<Rightarrow> Inl e
              | Inr (found, ident, mapping, s3) \<Rightarrow>
                  if \<not> found then Inl (ExpectedSequenceId offset)
                  else
                    (case Build_loop (corpus\<lparr>stringRegistry := mapping\<rparr>) ident
                            (empty_sd\<lparr>m_fileOffsetBytes := offset\<rparr>) s3 of
                       Inl e \<Rightarrow> Inl e
                     | Inr (corpus1, currentKey, sd, s4) \<Rightarrow>
                         AddSequenceIfIncluded currentKey corpus1 currentKey
                           (sd\<lparr>m_byteSize := m_fileOffsetEnd s4 - m_fileOffsetBytes sd\<rparr>) s4)))"
  proof (cases bom)
    case True
    then have eq: "s2 = s1\<lparr>m_pos := map_option (\<lambda>p. p + 3) (m_pos s1),
           m_fileOffsetStart := m_fileOffsetStart s1 + 3,
           m_bufferStart := map_option (\<lambda>p. p + 3) (m_bufferStart s1)\<rparr>"
      using assms(5) by simp
    show ?thesis
      unfolding eq Build_def using assms(1-4) True by (simp add: Let_def)
  next
    case False
    then have eq: "s2 = s1"
      using assms(5) by simp
    show ?thesis
      unfolding eq Build_def using assms(1-4) False by (simp add: Let_def)
  qed
  then show ?thesis
    using assms(6,7) by (cases l) (simp_all add: Let_def)
qed

lemma Build_stream:
  assumes new: "new_Indexer isPrimary (Some (fopen data)) skipSequenceIds numeric streamPrefix
      chunkSize bufferSize address = Inr s0"
    and b: "0 < bufferSize" and big: "length data < 2 ^ 63"
  shows "observed (Build corpus s0)
     = stream_Build (bom_seen bufferSize data) (\<not> skipSequenceIds) numeric streamPrefix data
         corpus (new_Index chunkSize isPrimary)"
proof -
  define k where "k = min bufferSize (length data)"
  define ix where "ix = Reserve (length data) (new_Index chunkSize isPrimary)"
  have s0: "s0 = \<lparr>m_streamPrefix = streamPrefix, m_numericSequenceId = numeric,
      m_bufferSize = bufferSize, m_file = fopen data, m_fileOffsetStart = 0,
      m_fileOffsetEnd = 0, m_address = address,
      m_buffer = replicate (bufferSize + 1) (CHR 0x00), m_bufferStart = None,
      m_bufferEnd = None, m_pos = None, m_done = False,
      m_hasSequenceIds = (\<not> skipSequenceIds), m_index = new_Index chunkSize isPrimary,
      calls = []\<rparr>"
    using new by (simp add: new_Indexer_def)
  define sR where "sR = s0\<lparr>m_index := Reserve (filesize (m_file s0)) (m_index s0)\<rparr>"
  have emp: "IsEmpty (m_index s0)"
    by (simp add: s0 IsEmpty_def new_Index_def)
  have sel0: "\<not> m_done sR" "m_fileOffsetEnd sR = 0" "m_file sR = fopen data"
    "m_bufferSize sR = bufferSize" "m_address sR = address" "calls sR = []"
    "m_numericSequenceId sR = numeric" "m_hasSequenceIds sR = (\<not> skipSequenceIds)"
    "m_streamPrefix sR = streamPrefix" "m_index sR = ix"
    "length (m_buffer sR) = bufferSize + 1"
    by (simp_all add: sR_def s0 ix_def filesize_def fopen_def)
  obtain chunk f' where fr: "fread (m_bufferSize sR) (m_file sR) = (chunk, f')"
    by (cases "fread (m_bufferSize sR) (m_file sR)")
  have lim: "f_limit (fopen data) = length data"
    by (simp add: f_limit_def fopen_def)
  have len: "length chunk = k"
    using fread_length [OF fr] lim by (simp add: sel0 k_def fopen_def)
  have ch: "chunk = take k data"
    using fread_chunk [OF fr] len by (simp add: sel0 fopen_def)
  have f': "f_pos f' = k" "f_data f' = data" "f_fail f' = None"
    using fread_pos [OF fr] fread_data [OF fr] len by (simp_all add: sel0 fopen_def)
  have small: "length chunk \<noteq> 2 ^ 64 - 1"
    using len big by (simp add: k_def min_def split: if_splits)
  show ?thesis
  proof (cases "data = []")
    case True
    then have "chunk = []"
      using ch by simp
    define sE where "sE = sR\<lparr>m_file := f',
        m_buffer := chunk @ drop (length chunk) (m_buffer sR), m_done := True\<rparr>"
    have r: "RefillBuffer sR = Inr sE"
      using \<open>chunk = []\<close> by (simp add: RefillBuffer_eq [OF fr] sel0 sE_def)
    have d: "m_done sE"
      by (simp add: sE_def)
    have "Build corpus s0 = Inl InputFileEmpty"
      using emp r [unfolded sR_def] d by (rule Build_empty)
    then show ?thesis
      using True by (simp add: observed_def stream_Build_def)
  next
    case False
    then have kpos: "0 < k" and kle: "k \<le> length data"
      using b by (simp_all add: k_def)
    define s1 where "s1 = sR\<lparr>m_file := f',
        m_buffer := chunk @ drop (length chunk) (m_buffer sR),
        m_fileOffsetStart := m_fileOffsetEnd sR,
        m_fileOffsetEnd := m_fileOffsetEnd sR + int (length chunk),
        m_bufferStart := Some 0, m_pos := Some 0, m_bufferEnd := Some (length chunk)\<rparr>"
    have ne: "chunk \<noteq> []"
      using kpos len by auto
    have refill: "RefillBuffer sR = Inr s1"
      using ne small by (simp add: RefillBuffer_eq [OF fr] sel0 s1_def)
    have sel: "m_bufferStart s1 = Some 0" "m_pos s1 = Some 0" "m_bufferEnd s1 = Some k"
      "m_fileOffsetStart s1 = 0" "m_fileOffsetEnd s1 = int k" "m_file s1 = f'"
      "m_bufferSize s1 = bufferSize" "\<not> m_done s1" "m_address s1 = address"
      "m_index s1 = ix" "calls s1 = []" "m_numericSequenceId s1 = numeric"
      "m_hasSequenceIds s1 = (\<not> skipSequenceIds)" "m_streamPrefix s1 = streamPrefix"
      by (simp_all add: s1_def sel0 len)
    have buf: "take k (m_buffer s1) = take k data" and blen: "k \<le> length (m_buffer s1)"
      using len ch sel0(11) by (simp_all add: s1_def)
    have nth: "\<And>i. i < k \<Longrightarrow> m_buffer s1 ! i = data ! i"
    proof -
      fix i assume "i < k"
      then have "take k (m_buffer s1) ! i = take k data ! i"
        using buf by simp
      then show "m_buffer s1 ! i = data ! i"
        using \<open>i < k\<close> by simp
    qed
    have de: "\<And>i. i < k \<Longrightarrow> deref s1 (Some i) = Inr (data ! i)"
      using nth blen by (simp add: deref_def)
    have hb: "has_BOM s1 = Inr (bom_seen bufferSize data)"
    proof (cases "3 < k")
      case False
      then show ?thesis
        by (simp add: has_BOM_def address_of_def sel bom_seen_def k_def [symmetric])
    next
      case True
      then have "take 3 data = [data ! 0, data ! 1, data ! 2]"
        using kle by (intro take3) simp
      then show ?thesis
        using True de [of 0] de [of "Suc 0"] de [of "Suc (Suc 0)"]
        by (simp add: has_BOM_def address_of_def sel bom_seen_def k_def [symmetric] BOM_def
            numeral_2_eq_2)
    qed
    define a where "a = (if bom_seen bufferSize data then 3 else 0 :: nat)"
    define s2 where "s2 = (if bom_seen bufferSize data then
        s1\<lparr>m_pos := map_option (\<lambda>p. p + 3) (m_pos s1),
           m_fileOffsetStart := m_fileOffsetStart s1 + 3,
           m_bufferStart := map_option (\<lambda>p. p + 3) (m_bufferStart s1)\<rparr>
      else s1)"
    have ak: "a < k"
      using kpos by (simp add: a_def bom_seen_def k_def [symmetric])
    have w2: "reading data a s2"
    proof -
      have win: "take (k - a) (drop a (m_buffer s1)) = take (k - a) (drop a data)"
        using buf by (metis drop_take)
      show ?thesis
      proof (cases "bom_seen bufferSize data")
        case True
        then have "a = 3" "3 < k"
          by (simp_all add: a_def bom_seen_def k_def)
        then show ?thesis
          using win kle blen b big f' True
          by (simp add: reading_def s2_def sel)
      next
        case False
        then have "a = 0"
          by (simp add: a_def)
        then show ?thesis
          using win kle blen b big f' False
          by (simp add: reading_def s2_def sel)
      qed
    qed
    have sel2: "m_bufferStart s2 = Some a" "m_hasSequenceIds s2 = (\<not> skipSequenceIds)"
      "m_streamPrefix s2 = streamPrefix" "m_buffer s2 = m_buffer s1"
      "m_index s2 = ix" "calls s2 = []" "m_numericSequenceId s2 = numeric"
      by (simp_all add: s2_def a_def sel)
    have de2: "deref s2 (Some a) = Inr (data ! a)"
      using nth [OF ak] ak blen by (simp add: deref_def sel2)
    have lo: "lines_only s2 = Inr (skipSequenceIds \<or> data ! a = streamPrefix)"
      by (simp add: lines_only_def sel2 de2)
    have off: "GetFileOffset s2 = int a"
      using w2 by (rule reading_GetFileOffset)
    note B = Build_unfold [OF emp refill [unfolded sR_def] sel(8) hb s2_def lo off, of corpus]
    show ?thesis
    proof (cases "skipSequenceIds \<or> data ! a = streamPrefix")
      case True
      then have "observed (Build corpus s0) = observed (BuildFromLines corpus s2)"
        using B by simp
      also have "\<dots> = stream_BuildFromLines numeric data corpus a (ix, [])"
        using BuildFromLines_stream [OF w2, of corpus] by (simp add: sel2)
      finally show ?thesis
        using True False
        by (simp add: stream_Build_def Let_def a_def [symmetric] ix_def)
    next
      case no: False
      then have "observed (Build corpus s0) = stream_BuildKeyed numeric data corpus a (ix, [])"
        using B Build_keyed_stream [OF w2, of corpus] by (simp add: sel2)
      then show ?thesis
        using no False
        by (simp add: stream_Build_def Let_def a_def [symmetric] ix_def)
    qed
  qed
qed

section \<open>The byte ranges of a scan\<close>

text \<open>
  \<open>ranges\<close> gives the byte range of every descriptor passed to the emit routine, as
  offset and size. \<open>tiles lo hi rs\<close> says that the ranges \<open>rs\<close>, in their order, have
  positive sizes, that the first starts at \<open>lo\<close>, each next one where the one before
  ends, and the last ends at \<open>hi\<close>: they increase strictly, do not overlap and cover
  \<open>[lo, hi)\<close> without a gap.
\<close>

definition ranges :: "(size_t \<times> SequenceDescriptor) list \<Rightarrow> (int \<times> int) list" where
  "ranges cl = map (\<lambda>(k, sd). (m_fileOffsetBytes sd, m_byteSize sd)) cl"

fun tiles :: "int \<Rightarrow> int \<Rightarrow> (int \<times> int) list \<Rightarrow> bool" where
  "tiles lo hi [] = (lo = hi)"
| "tiles lo hi ((offset, n) # rs) = (offset = lo \<and> 0 < n \<and> tiles (lo + n) hi rs)"

lemma tiles_append: "tiles lo mid xs \<Longrightarrow> tiles mid hi ys \<Longrightarrow> tiles lo hi (xs @ ys)"
  by (induction xs arbitrary: lo) auto

lemma tiles_le: "tiles lo hi rs \<Longrightarrow> lo \<le> hi"
proof (induction rs arbitrary: lo)
  case Nil
  then show ?case by simp
next
  case (Cons x rs)
  obtain offset n where x: "x = (offset, n)"
    by (cases x)
  have "lo + n \<le> hi"
    using Cons.prems x by (intro Cons.IH) simp
  then show ?case
    using Cons.prems x by simp
qed

lemma tiles_lower: "tiles lo hi rs \<Longrightarrow> r \<in> set rs \<Longrightarrow> lo \<le> fst r \<and> fst r + snd r \<le> hi"
proof (induction rs arbitrary: lo)
  case Nil
  then show ?case by simp
next
  case (Cons x rs)
  obtain offset n where x: "x = (offset, n)"
    by (cases x)
  have t: "tiles (lo + n) hi rs" and o: "offset = lo" and s: "0 < n"
    using Cons.prems(1) x by simp_all
  have up: "lo + n \<le> hi"
    using t by (rule tiles_le)
  show ?case
  proof (cases "r = x")
    case True
    then show ?thesis using x o up by simp
  next
    case False
    then have "r \<in> set rs"
      using Cons.prems(2) by simp
    from Cons.IH [OF t this] show ?thesis
      using s by simp
  qed
qed

lemma emit_result:
  "emit numeric k sd corpus snk = Inr (corpus', snk') \<Longrightarrow> snd snk' = snd snk @ [(k, sd)]"
  by (auto simp: emit_def split: option.splits if_splits prod.splits)

lemma emit_error: "emit numeric k sd corpus snk = Inl e \<Longrightarrow> e = UnknownId"
  by (auto simp: emit_def split: option.splits if_splits prod.splits)

lemma ranges_Nil [simp]: "ranges [] = []"
  by (simp add: ranges_def)

lemma ranges_Cons [simp]:
  "ranges ((k, sd) # cl) = (m_fileOffsetBytes sd, m_byteSize sd) # ranges cl"
  by (simp add: ranges_def)

lemma ranges_append [simp]: "ranges (xs @ ys) = ranges xs @ ranges ys"
  by (simp add: ranges_def)

lemma ranges_single [simp]:
  "ranges [(k, sd)] = [(m_fileOffsetBytes sd, m_byteSize sd)]"
  by (simp add: ranges_def)

lemma line_sd_sel [simp]:
  "m_fileOffsetBytes (line_sd offset next) = offset"
  "m_byteSize (line_sd offset next) = next - offset"
  by (simp_all add: line_sd_def)

definition tiled ::
  "int \<Rightarrow> int \<Rightarrow> (size_t \<times> SequenceDescriptor) list \<Rightarrow> (size_t \<times> SequenceDescriptor) list
     \<Rightarrow> bool" where
  "tiled lo hi before after \<longleftrightarrow> (\<exists>ds. after = before @ ds \<and> tiles lo hi (ranges ds))"

lemma tiled_refl: "tiled lo lo cl cl"
  by (simp add: tiled_def)

lemma tiled_step:
  "0 < m_byteSize sd \<Longrightarrow> tiled (m_fileOffsetBytes sd + m_byteSize sd) hi (cl @ [(k, sd)]) cl' \<Longrightarrow>
     tiled (m_fileOffsetBytes sd) hi cl cl'"
  by (auto simp: tiled_def)

lemma tiled_last:
  "tiled lo mid cl cl' \<Longrightarrow> 0 < m_byteSize sd \<Longrightarrow> m_fileOffsetBytes sd = mid \<Longrightarrow>
     mid + m_byteSize sd = hi \<Longrightarrow> tiled lo hi cl (cl' @ [(k, sd)])"
proof -
  assume a: "tiled lo mid cl cl'" "0 < m_byteSize sd" "m_fileOffsetBytes sd = mid"
    "mid + m_byteSize sd = hi"
  then obtain ds where ds: "cl' = cl @ ds" "tiles lo mid (ranges ds)"
    by (auto simp: tiled_def)
  have "tiles mid hi (ranges [(k, sd)])"
    using a by simp
  with ds(2) have "tiles lo hi (ranges ds @ ranges [(k, sd)])"
    by (rule tiles_append)
  then show ?thesis
    using ds(1) by (auto simp: tiled_def)
qed

lemma stream_lines_tiled:
  "offset \<le> a \<Longrightarrow>
     (case stream_lines numeric corpus lines offset a rest snk of
        Inl e \<Rightarrow> e = UnknownId
      | Inr (corpus', lines', offset', snk') \<Rightarrow>
          tiled offset offset' (snd snk) (snd snk') \<and> offset' \<le> a + int (length rest))"
proof (induction rest arbitrary: corpus lines offset a snk)
  case Nil
  then show ?case by (simp add: tiled_refl)
next
  case (Cons c cs)
  show ?case
  proof (cases "c = ROW_DELIMITER")
    case False
    have "case stream_lines numeric corpus lines offset (a + 1) cs snk of
          Inl e \<Rightarrow> e = UnknownId
        | Inr (corpus', lines', offset', snk') \<Rightarrow>
            tiled offset offset' (snd snk) (snd snk') \<and> offset' \<le> a + 1 + int (length cs)"
      by (rule Cons.IH) (use Cons.prems in simp)
    then show ?thesis
      using False by (auto split: sum.splits)
  next
    case True
    let ?sd = "line_sd offset (a + 1)"
    show ?thesis
    proof (cases "emit numeric lines ?sd corpus snk")
      case (Inl e)
      then show ?thesis
        using True emit_error [OF Inl] by simp
    next
      case (Inr res)
      obtain corpus1 snk1 where res: "res = (corpus1, snk1)"
        by (cases res)
      have c1: "snd snk1 = snd snk @ [(lines, ?sd)]"
        using emit_result Inr res by blast
      have ih: "case stream_lines numeric corpus1 (lines + 1) (a + 1) (a + 1) cs snk1 of
          Inl e \<Rightarrow> e = UnknownId
        | Inr (corpus', lines', offset', snk') \<Rightarrow>
            tiled (a + 1) offset' (snd snk1) (snd snk') \<and> offset' \<le> a + 1 + int (length cs)"
        by (rule Cons.IH) simp
      show ?thesis
      proof (cases "stream_lines numeric corpus1 (lines + 1) (a + 1) (a + 1) cs snk1")
        case (Inl e)
        then show ?thesis
          using True Inr res ih by simp
      next
        case r: (Inr out)
        obtain corpus' lines' offset' snk' where out: "out = (corpus', lines', offset', snk')"
          by (cases out)
        have t: "tiled (a + 1) offset' (snd snk @ [(lines, ?sd)]) (snd snk')"
          and le: "offset' \<le> a + 1 + int (length cs)"
          using ih r out c1 by simp_all
        have "tiled (m_fileOffsetBytes ?sd) offset' (snd snk) (snd snk')"
          using Cons.prems t by (intro tiled_step) simp_all
        then show ?thesis
          using True Inr res r out le by simp
      qed
    qed
  qed
qed


lemma stream_BuildFromLines_tiled:
  assumes "a \<le> length data"
  shows "case stream_BuildFromLines numeric data corpus a snk of
        Inl e \<Rightarrow> e = UnknownId
      | Inr (corpus', snk') \<Rightarrow> tiled (int a) (int (length data)) (snd snk) (snd snk')"
proof -
  have sl: "case stream_lines numeric corpus 0 (int a) (int a) (drop a data) snk of
        Inl e \<Rightarrow> e = UnknownId
      | Inr (corpus', lines', offset', snk') \<Rightarrow>
          tiled (int a) offset' (snd snk) (snd snk')
          \<and> offset' \<le> int a + int (length (drop a data))"
    by (rule stream_lines_tiled) simp
  show ?thesis
  proof (cases "stream_lines numeric corpus 0 (int a) (int a) (drop a data) snk")
    case (Inl e)
    then show ?thesis
      using sl by (simp add: stream_BuildFromLines_def)
  next
    case (Inr out)
    obtain corpus1 lines1 offset1 snk1 where out: "out = (corpus1, lines1, offset1, snk1)"
      by (cases out)
    have t: "tiled (int a) offset1 (snd snk) (snd snk1)" and le: "offset1 \<le> int (length data)"
      using sl Inr out assms by simp_all
    show ?thesis
    proof (cases "offset1 < int (length data)")
      case False
      then have "offset1 = int (length data)"
        using le by simp
      then show ?thesis
        using Inr out t by (simp add: stream_BuildFromLines_def)
    next
      case True
      let ?sd = "line_sd offset1 (int (length data))"
      show ?thesis
      proof (cases "emit numeric lines1 ?sd corpus1 snk1")
        case (Inl e)
        then show ?thesis
          using Inr out True emit_error [OF Inl] by (simp add: stream_BuildFromLines_def)
      next
        case r: (Inr res)
        obtain corpus' snk' where res: "res = (corpus', snk')"
          by (cases res)
        have "snd snk' = snd snk1 @ [(lines1, ?sd)]"
          using emit_result r res by blast
        moreover have "tiled (int a) (int (length data)) (snd snk) (snd snk1 @ [(lines1, ?sd)])"
          using t True by (intro tiled_last [of _ offset1]) simp_all
        ultimately show ?thesis
          using Inr out True r res by (simp add: stream_BuildFromLines_def)
      qed
    qed
  qed
qed

lemma stream_keyed_tiled:
  "m_fileOffsetBytes sd \<le> int a \<Longrightarrow> m_fileOffsetBytes sd < int (length data) \<Longrightarrow>
     (case stream_keyed data numeric corpus currentKey sd a snk of
        Inl e \<Rightarrow> e = UnknownId
      | Inr (corpus', currentKey', sd', snk') \<Rightarrow>
          tiled (m_fileOffsetBytes sd) (m_fileOffsetBytes sd') (snd snk) (snd snk') \<and>
          m_fileOffsetBytes sd' < int (length data))"
proof (induction "length data - a" arbitrary: a sd corpus currentKey snk rule: less_induct)
  case less
  define a1 where "a1 = skip_line data a"
  let ?sd1 = "sd\<lparr>m_numberOfSamples := m_numberOfSamples sd + 1\<rparr>"
  note unfold = stream_keyed.simps [of data numeric corpus currentKey sd a snk]
  have stop: "tiled (m_fileOffsetBytes sd) (m_fileOffsetBytes ?sd1) (snd snk) (snd snk)"
    by (simp add: tiled_refl)
  show ?case
  proof (cases "a1 < length data")
    case False
    then show ?thesis
      using stop less.prems by (simp add: unfold Let_def a1_def)
  next
    case True
    then have gt: "a < a1"
      unfolding a1_def by (rule skip_line_gt)
    define rk where "rk = read_key numeric False 0 [] (stringRegistry corpus) (drop a1 data)"
    define a2 where "a2 = a1 + length (takeWhile (keychar numeric) (drop a1 data))"
    have m: "length data - a2 < length data - a"
      using gt True by (simp add: a2_def)
    show ?thesis
    proof (cases rk)
      case None
      then show ?thesis
        using True stop less.prems by (simp add: unfold Let_def a1_def rk_def)
    next
      case (Some res)
      obtain found ident mapping where res: "res = (found, ident, mapping)"
        by (cases res) auto
      let ?corpus1 = "corpus\<lparr>stringRegistry := mapping\<rparr>"
      show ?thesis
      proof (cases "found \<and> ident \<noteq> currentKey")
        case False
        have eq: "stream_keyed data numeric corpus currentKey sd a snk
            = stream_keyed data numeric ?corpus1 currentKey ?sd1 a2 snk"
          using True Some res False
          by (cases found) (simp_all add: unfold Let_def a1_def [symmetric] rk_def [symmetric] a2_def)
        have "case stream_keyed data numeric ?corpus1 currentKey ?sd1 a2 snk of
            Inl e \<Rightarrow> e = UnknownId
          | Inr (corpus', currentKey', sd', snk') \<Rightarrow>
              tiled (m_fileOffsetBytes ?sd1) (m_fileOffsetBytes sd') (snd snk) (snd snk') \<and>
              m_fileOffsetBytes sd' < int (length data)"
          using m less.prems gt by (intro less.hyps) (simp_all add: a2_def)
        moreover have "m_fileOffsetBytes ?sd1 = m_fileOffsetBytes sd"
          by simp
        ultimately show ?thesis
          unfolding eq by (simp only:)
      next
        case new: True
        let ?sdc = "?sd1\<lparr>m_byteSize := int a1 - m_fileOffsetBytes ?sd1\<rparr>"
        let ?sd2 = "empty_sd\<lparr>m_fileOffsetBytes := int a1\<rparr>"
        show ?thesis
        proof (cases "emit numeric currentKey ?sdc ?corpus1 snk")
          case (Inl e)
          then have "stream_keyed data numeric corpus currentKey sd a snk = Inl e"
            using True Some res new
            by (simp add: unfold Let_def a1_def [symmetric] rk_def [symmetric])
          then show ?thesis
            using emit_error [OF Inl] by simp
        next
          case (Inr out)
          obtain corpus2 snk2 where out: "out = (corpus2, snk2)"
            by (cases out)
          have c2: "snd snk2 = snd snk @ [(currentKey, ?sdc)]"
            using emit_result Inr out by blast
          have eq: "stream_keyed data numeric corpus currentKey sd a snk
              = stream_keyed data numeric corpus2 ident ?sd2 a2 snk2"
            using True Some res new Inr out
            by (simp add: unfold Let_def a1_def [symmetric] rk_def [symmetric] a2_def)
          have ih: "case stream_keyed data numeric corpus2 ident ?sd2 a2 snk2 of
              Inl e \<Rightarrow> e = UnknownId
            | Inr (corpus', currentKey', sd', snk') \<Rightarrow>
                tiled (m_fileOffsetBytes ?sd2) (m_fileOffsetBytes sd') (snd snk2) (snd snk') \<and>
                m_fileOffsetBytes sd' < int (length data)"
            using m True by (intro less.hyps) (simp_all add: a2_def)
          show ?thesis
          proof (cases "stream_keyed data numeric corpus2 ident ?sd2 a2 snk2")
            case (Inl e)
            then show ?thesis
              using ih unfolding eq by simp
          next
            case r: (Inr fin)
            obtain corpus' currentKey' sd' snk' where fin: "fin = (corpus', currentKey', sd', snk')"
              by (cases fin)
            have t: "tiled (int a1) (m_fileOffsetBytes sd') (snd snk @ [(currentKey, ?sdc)]) (snd snk')"
              and lt: "m_fileOffsetBytes sd' < int (length data)"
              using ih r fin c2 by simp_all
            have "tiled (m_fileOffsetBytes ?sdc) (m_fileOffsetBytes sd') (snd snk) (snd snk')"
              using t less.prems gt by (intro tiled_step) simp_all
            then show ?thesis
              unfolding eq using r fin lt by simp
          qed
        qed
      qed
    qed
  qed
qed

lemma stream_BuildKeyed_tiled:
  assumes "a < length data"
  shows "case stream_BuildKeyed numeric data corpus a snk of
        Inl e \<Rightarrow> e = UnknownId \<or> e = ExpectedSequenceId (int a)
      | Inr (corpus', snk') \<Rightarrow> tiled (int a) (int (length data)) (snd snk) (snd snk')"
proof (cases "read_key numeric False 0 [] (stringRegistry corpus) (drop a data)")
  case None
  then show ?thesis
    by (simp add: stream_BuildKeyed_def)
next
  case (Some res)
  obtain found ident mapping where res: "res = (found, ident, mapping)"
    by (cases res) auto
  let ?corpus1 = "corpus\<lparr>stringRegistry := mapping\<rparr>"
  let ?sd0 = "empty_sd\<lparr>m_fileOffsetBytes := int a\<rparr>"
  let ?a2 = "a + length (takeWhile (keychar numeric) (drop a data))"
  show ?thesis
  proof (cases found)
    case False
    then show ?thesis
      using Some res by (simp add: stream_BuildKeyed_def)
  next
    case True
    have sk: "case stream_keyed data numeric ?corpus1 ident ?sd0 ?a2 snk of
        Inl e \<Rightarrow> e = UnknownId
      | Inr (corpus', currentKey', sd', snk') \<Rightarrow>
          tiled (m_fileOffsetBytes ?sd0) (m_fileOffsetBytes sd') (snd snk) (snd snk') \<and>
          m_fileOffsetBytes sd' < int (length data)"
      using assms by (intro stream_keyed_tiled) simp_all
    show ?thesis
    proof (cases "stream_keyed data numeric ?corpus1 ident ?sd0 ?a2 snk")
      case (Inl e)
      then show ?thesis
        using Some res True sk by (simp add: stream_BuildKeyed_def)
    next
      case (Inr out)
      obtain corpus1 currentKey sd snk1 where out: "out = (corpus1, currentKey, sd, snk1)"
        by (cases out)
      have t: "tiled (int a) (m_fileOffsetBytes sd) (snd snk) (snd snk1)"
        and lt: "m_fileOffsetBytes sd < int (length data)"
        using sk Inr out by simp_all
      let ?sdf = "sd\<lparr>m_byteSize := int (length data) - m_fileOffsetBytes sd\<rparr>"
      show ?thesis
      proof (cases "emit numeric currentKey ?sdf corpus1 snk1")
        case (Inl e)
        then show ?thesis
          using Some res True Inr out emit_error [OF Inl] by (simp add: stream_BuildKeyed_def)
      next
        case r: (Inr fin)
        obtain corpus' snk' where fin: "fin = (corpus', snk')"
          by (cases fin)
        have "snd snk' = snd snk1 @ [(currentKey, ?sdf)]"
          using emit_result r fin by blast
        moreover have "tiled (int a) (int (length data)) (snd snk) (snd snk1 @ [(currentKey, ?sdf)])"
          using t lt by (intro tiled_last [of _ "m_fileOffsetBytes sd"]) simp_all
        ultimately show ?thesis
          using Some res True Inr out r fin by (simp add: stream_BuildKeyed_def)
      qed
    qed
  qed
qed

lemma stream_Build_tiled:
  assumes "bom \<Longrightarrow> 3 < length data"
  shows "case stream_Build bom hasSequenceIds numeric streamPrefix data corpus ix of
        Inl e \<Rightarrow> (e = InputFileEmpty) = (data = [])
      | Inr (corpus', snk') \<Rightarrow>
          tiles (if bom then 3 else 0) (int (length data)) (ranges (snd snk'))"
proof (cases "data = []")
  case True
  then show ?thesis
    by (simp add: stream_Build_def)
next
  case False
  define a where "a = (if bom then 3 else 0 :: nat)"
  have a: "a < length data"
    using assms False by (simp add: a_def)
  let ?snk = "(Reserve (length data) ix, [])"
  have ia: "int a = (if bom then 3 else 0)"
    by (simp add: a_def)
  show ?thesis
  proof (cases "\<not> hasSequenceIds \<or> data ! a = streamPrefix")
    case True
    then have eq: "stream_Build bom hasSequenceIds numeric streamPrefix data corpus ix
        = stream_BuildFromLines numeric data corpus a ?snk"
      using False by (simp add: stream_Build_def Let_def a_def)
    have "a \<le> length data"
      using a by simp
    then have "case stream_BuildFromLines numeric data corpus a ?snk of
        Inl e \<Rightarrow> e = UnknownId
      | Inr (corpus', snk') \<Rightarrow> tiled (int a) (int (length data)) (snd ?snk) (snd snk')"
      by (rule stream_BuildFromLines_tiled)
    then show ?thesis
      unfolding eq using False ia by (auto simp: tiled_def split: sum.splits)
  next
    case no: False
    then have eq: "stream_Build bom hasSequenceIds numeric streamPrefix data corpus ix
        = stream_BuildKeyed numeric data corpus a ?snk"
      using False by (simp add: stream_Build_def Let_def a_def)
    have "case stream_BuildKeyed numeric data corpus a ?snk of
        Inl e \<Rightarrow> e = UnknownId \<or> e = ExpectedSequenceId (int a)
      | Inr (corpus', snk') \<Rightarrow> tiled (int a) (int (length data)) (snd ?snk) (snd snk')"
      using a by (rule stream_BuildKeyed_tiled)
    then show ?thesis
      unfolding eq using False ia by (auto simp: tiled_def split: sum.splits)
  qed
qed

lemma Build_tiled:
  assumes "new_Indexer isPrimary (Some (fopen data)) skipSequenceIds numeric streamPrefix
      chunkSize bufferSize address = Inr s0"
    and "0 < bufferSize" and "length data < 2 ^ 63"
  shows "(Build corpus s0 = Inl InputFileEmpty) = (data = [])"
    and "Build corpus s0 = Inr (corpus', s') \<Longrightarrow>
      tiles (if bom_seen bufferSize data then 3 else 0) (int (length data)) (ranges (calls s'))"
proof -
  let ?t = "stream_Build (bom_seen bufferSize data) (\<not> skipSequenceIds) numeric streamPrefix
      data corpus (new_Index chunkSize isPrimary)"
  have eq: "observed (Build corpus s0) = ?t"
    using assms by (rule Build_stream)
  have "bom_seen bufferSize data \<Longrightarrow> 3 < length data"
    by (simp add: bom_seen_def)
  then have st: "case ?t of
        Inl e \<Rightarrow> (e = InputFileEmpty) = (data = [])
      | Inr (corpus', snk') \<Rightarrow>
          tiles (if bom_seen bufferSize data then 3 else 0) (int (length data))
            (ranges (snd snk'))"
    by (rule stream_Build_tiled)
  show "(Build corpus s0 = Inl InputFileEmpty) = (data = [])"
  proof (cases "Build corpus s0")
    case (Inl e)
    then have "?t = Inl e"
      using eq by (simp add: observed_def)
    then show ?thesis
      using st Inl by simp
  next
    case (Inr res)
    then have "?t = Inr (fst res, m_index (snd res), calls (snd res))"
      using eq by (cases res) (simp add: observed_def)
    then have "data \<noteq> []"
      by (auto simp: stream_Build_def)
    then show ?thesis
      using Inr by simp
  qed
  show "tiles (if bom_seen bufferSize data then 3 else 0) (int (length data)) (ranges (calls s'))"
    if "Build corpus s0 = Inr (corpus', s')"
  proof -
    have "?t = Inr (corpus', m_index s', calls s')"
      using eq that by (simp add: observed_def)
    then show ?thesis
      using st by simp
  qed
qed

subsection \<open>Concrete scans\<close>

text \<open>
  The indexer the constructor gives for a file just opened, the state after its first
  block has been read, and what a finished scan shows: \<open>outcome\<close> is the error indicator
  of the stream, the exhausted flag and the byte ranges of the emit calls.
\<close>

definition indexer :: "bool \<Rightarrow> bool \<Rightarrow> char \<Rightarrow> nat \<Rightarrow> string \<Rightarrow> Indexer" where
  "indexer skipSequenceIds numericSequenceId streamPrefix bufferSize data =
     \<lparr>m_streamPrefix = streamPrefix, m_numericSequenceId = numericSequenceId,
      m_bufferSize = bufferSize, m_file = fopen data, m_fileOffsetStart = 0,
      m_fileOffsetEnd = 0, m_address = 4096,
      m_buffer = replicate (bufferSize + 1) (CHR 0x00), m_bufferStart = None,
      m_bufferEnd = None, m_pos = None, m_done = False,
      m_hasSequenceIds = (\<not> skipSequenceIds), m_index = new_Index 0 True, calls = []\<rparr>"

lemma new_Indexer_indexer:
  "new_Indexer True (Some (fopen data)) skipSequenceIds numericSequenceId streamPrefix 0
     bufferSize 4096 = Inr (indexer skipSequenceIds numericSequenceId streamPrefix bufferSize data)"
  by (simp add: new_Indexer_def indexer_def)

definition first_block :: "bool \<Rightarrow> nat \<Rightarrow> string \<Rightarrow> Indexer" where
  "first_block numericSequenceId bufferSize data =
     (case RefillBuffer (indexer False numericSequenceId (CHR ''|'') bufferSize data) of
        Inl e \<Rightarrow> indexer False numericSequenceId (CHR ''|'') bufferSize data
      | Inr s \<Rightarrow> s)"

lemmas first_block_defs = first_block_def indexer_def fopen_def new_Index_def RefillBuffer_def
  fread_def f_limit_def Let_def

definition outcome ::
  "error + (CorpusDescriptor \<times> Indexer) \<Rightarrow> error + (bool \<times> bool \<times> (int \<times> int) list)" where
  "outcome r =
     map_sum (\<lambda>e. e)
       (\<lambda>(corpus, s). (f_error (m_file s), m_done s,
          map (\<lambda>(k, sd). (m_fileOffsetBytes sd, m_byteSize sd)) (calls s))) r"

lemma outcome_Inr: "outcome r = Inr x \<Longrightarrow> \<exists>corpus s. r = Inr (corpus, s) \<and> ranges (calls s) = snd (snd x)"
  by (cases r) (auto simp: outcome_def ranges_def)

text \<open>The inputs of the examples.\<close>

definition three_lines :: string where
  "three_lines = ''1 x'' @ [CHR 0x0A] @ ''1 y'' @ [CHR 0x0A] @ ''2 z'' @ [CHR 0x0A]"


definition bom_line :: string where
  "bom_line = BOM @ ''a'' @ [CHR 0x0A]"

definition bom_x :: string where
  "bom_x = BOM @ ''x''"

definition failing_file :: FILE where
  "failing_file = (fopen [CHR ''a'', CHR 0x0A, CHR ''b'', CHR 0x0A])\<lparr>f_fail := Some 2\<rparr>"

definition decimal_value :: "string \<Rightarrow> size_t" where
  "decimal_value ds = foldl (\<lambda>i c. i * 10 + (of_char c - 48)) 0 ds"

definition indexed_once :: Indexer where
  "indexed_once =
     \<lparr>m_streamPrefix = CHR ''|'', m_numericSequenceId = True, m_bufferSize = 4,
      m_file = (fopen [CHR ''a'', CHR 0x0A])\<lparr>f_pos := 2\<rparr>,
      m_fileOffsetStart = 0, m_fileOffsetEnd = 2, m_address = 4096,
      m_buffer = [CHR ''a'', CHR 0x0A, CHR 0x00, CHR 0x00, CHR 0x00],
      m_bufferStart = Some 0, m_bufferEnd = Some 2, m_pos = None, m_done = True,
      m_hasSequenceIds = False,
      m_index = \<lparr>m_chunkSize = 0, m_primary = True, m_reserved = [2],
                 m_sequences = [\<lparr>m_fileOffsetBytes = 0, m_byteSize = 2, m_numberOfSamples = 1,
                                  m_key = \<lparr>m_sequence = 0, m_sample = 0\<rparr>\<rparr>]\<rparr>,
      calls = []\<rparr>"




definition descriptor :: "int \<Rightarrow> int \<Rightarrow> nat \<Rightarrow> size_t \<Rightarrow> SequenceDescriptor" where
  "descriptor offset n samples i =
     \<lparr>m_fileOffsetBytes = offset, m_byteSize = n, m_numberOfSamples = samples,
      m_key = \<lparr>m_sequence = i, m_sample = 0\<rparr>\<rparr>"

subsection \<open>The key of an emit call\<close>


definition interned :: "StringToIdMap \<Rightarrow> string \<Rightarrow> StringToIdMap" where
  "interned registry key = (if key \<in> set registry then registry else registry @ [key])"

lemma index_of_None: "index_of k xs = None \<longleftrightarrow> k \<notin> set xs"
  by (induction xs) auto

lemma index_of_append_new: "k \<notin> set xs \<Longrightarrow> index_of k (xs @ [k]) = Some (length xs)"
  by (induction xs) auto

lemma index_of_append_old: "k \<in> set xs \<Longrightarrow> index_of k (xs @ ys) = index_of k xs"
  by (induction xs) auto

lemma id_of_key_interned:
  "\<exists>i. id_of_key registry key = (i, interned registry key) \<and>
       TryGet (interned registry key) key = Some i"
proof (cases "index_of key registry")
  case None
  then have "key \<notin> set registry"
    by (simp add: index_of_None)
  then show ?thesis
    using None by (simp add: id_of_key_def TryGet_def AddValue_def interned_def index_of_append_new)
next
  case (Some n)
  then have "key \<in> set registry"
    using index_of_None [of key registry] by auto
  then show ?thesis
    using Some by (simp add: id_of_key_def TryGet_def interned_def)
qed

lemma interned_mem: "key \<in> set (interned registry key)"
  by (simp add: interned_def)

lemma TryGet_interned_other:
  "k \<in> set registry \<Longrightarrow> TryGet (interned registry key) k = TryGet registry k"
  by (simp add: interned_def TryGet_def index_of_append_old)





section \<open>The claims\<close>

subsection \<open>C1: the byte ranges tile the file\<close>

text \<open>
  C1, as the code has it. For a file read without a failure and shorter than \<open>2 ^ 63\<close>
  bytes, and a buffer of at least one byte: when \<open>Build\<close> succeeds, the byte ranges of the
  descriptors it passed to the emit routine, in the order of discovery and with those
  the filter dropped, tile the file from the start offset to its size. The start offset
  is 3 when the first block read holds more than three bytes and begins with the byte
  order mark, and 0 otherwise.
\<close>

theorem Build_tiles_file:
  assumes "new_Indexer isPrimary (Some (fopen data)) skipSequenceIds numeric streamPrefix
      chunkSize bufferSize address = Inr s0"
    and "0 < bufferSize" and "length data < 2 ^ 63"
    and "Build corpus s0 = Inr (corpus', s')"
  shows "tiles (if bom_seen bufferSize data then 3 else 0) (int (length data))
     (ranges (calls s'))"
  using assms by (rule Build_tiled(2))

theorem Build_tiles_file_witness:
  "new_Indexer True (Some (fopen three_lines)) False True (CHR ''|'') 0 5 4096
     = Inr (indexer False True (CHR ''|'') 5 three_lines) \<and>
   (0::nat) < 5 \<and> length three_lines < 2 ^ 63 \<and> \<not> bom_seen 5 three_lines \<and>
   (\<exists>corpus' s'. Build (include_all []) (indexer False True (CHR ''|'') 5 three_lines)
        = Inr (corpus', s') \<and>
      ranges (calls s') = [(0, 8), (8, 4)] \<and>
      tiles 0 (int (length three_lines)) (ranges (calls s')))"
proof -
  have h1: "new_Indexer True (Some (fopen three_lines)) False True (CHR ''|'') 0 5 4096
     = Inr (indexer False True (CHR ''|'') 5 three_lines)"
    by (rule new_Indexer_indexer)
  have h2: "(0::nat) < 5"
    by simp
  have h3: "length three_lines < 2 ^ 63"
    by (simp add: three_lines_def)
  have nb: "\<not> bom_seen 5 three_lines"
    by (simp add: bom_seen_def three_lines_def BOM_def)
  have "outcome (Build (include_all []) (indexer False True (CHR ''|'') 5 three_lines))
      = Inr (False, True, [(0, 8), (8, 4)])"
    by (simp add: outcome_def three_lines_def include_all_def indexer_def model_defs)
  then obtain corpus' s' where
    run: "Build (include_all []) (indexer False True (CHR ''|'') 5 three_lines) = Inr (corpus', s')"
    and rg: "ranges (calls s') = [(0, 8), (8, 4)]"
    using outcome_Inr by fastforce
  from Build_tiles_file [OF h1 h2 h3 run] have "tiles 0 (int (length three_lines)) (ranges (calls s'))"
    using nb by simp
  then show ?thesis
    using h1 h2 h3 nb run rg by blast
qed

text \<open>
  The claim takes the start offset to be 3 for every file that begins with the byte
  order mark. A four-byte file that begins with it, read through a buffer of two bytes,
  gives the single range \<open>[0, 4)\<close>.
\<close>

theorem Build_tiles_counterexample:
  "take 3 bom_x = BOM \<and>
   outcome (scan (fopen bom_x) True True (CHR ''|'') 2 (include_all []))
     = Inr (False, True, [(0, 4)]) \<and>
   \<not> tiles 3 (int (length bom_x)) [(0, 4)]"
  by (simp add: outcome_def bom_x_def BOM_def include_all_def model_defs)

subsection \<open>C2: the key the emit routine uses\<close>



subsection \<open>C3: the buffer capacity\<close>

text \<open>
  C3, as the code has it. Two scans of the same file through buffers of at least one
  byte give the same result, errors included (the descriptors and the capacity hint the
  sink received, the emit calls, the registry), whenever the two capacities agree on the
  test for the byte order mark: both first blocks hold more than three bytes, or neither
  does, or the file does not begin with the mark.
\<close>

theorem refill_size_independent:
  assumes "new_Indexer isPrimary (Some (fopen data)) skipSequenceIds numeric streamPrefix
      chunkSize b1 address1 = Inr s1"
    and "new_Indexer isPrimary (Some (fopen data)) skipSequenceIds numeric streamPrefix
      chunkSize b2 address2 = Inr s2"
    and "0 < b1" and "0 < b2" and "length data < 2 ^ 63"
    and "bom_seen b1 data = bom_seen b2 data"
  shows "observed (Build corpus s1) = observed (Build corpus s2)"
  using Build_stream [OF assms(1,3,5), of corpus] Build_stream [OF assms(2,4,5), of corpus]
    assms(6) by simp

theorem refill_size_independent_witness:
  "new_Indexer True (Some (fopen three_lines)) False True (CHR ''|'') 0 1 4096
     = Inr (indexer False True (CHR ''|'') 1 three_lines) \<and>
   new_Indexer True (Some (fopen three_lines)) False True (CHR ''|'') 0 100 4096
     = Inr (indexer False True (CHR ''|'') 100 three_lines) \<and>
   (0::nat) < 1 \<and> (0::nat) < 100 \<and> length three_lines < 2 ^ 63 \<and>
   bom_seen 1 three_lines = bom_seen 100 three_lines \<and>
   observed (Build (include_all []) (indexer False True (CHR ''|'') 1 three_lines))
     = observed (Build (include_all []) (indexer False True (CHR ''|'') 100 three_lines))"
proof -
  have h1: "new_Indexer True (Some (fopen three_lines)) False True (CHR ''|'') 0 1 4096
     = Inr (indexer False True (CHR ''|'') 1 three_lines)"
    by (rule new_Indexer_indexer)
  have h2: "new_Indexer True (Some (fopen three_lines)) False True (CHR ''|'') 0 100 4096
     = Inr (indexer False True (CHR ''|'') 100 three_lines)"
    by (rule new_Indexer_indexer)
  have h3: "(0::nat) < 1" and h4: "(0::nat) < 100"
    by simp_all
  have h5: "length three_lines < 2 ^ 63"
    by (simp add: three_lines_def)
  have h6: "bom_seen 1 three_lines = bom_seen 100 three_lines"
    by (simp add: bom_seen_def three_lines_def BOM_def)
  from refill_size_independent [OF h1 h2 h3 h4 h5 h6, of "include_all []"]
  show ?thesis
    using h1 h2 h3 h4 h5 h6 by blast
qed

text \<open>
  The test for the byte order mark wants more than three bytes in the first block. With
  a buffer of three bytes the mark is not skipped and the line starts at offset 0; with a
  buffer of eight bytes it starts at offset 3.
\<close>

theorem refill_size_counterexample:
  "outcome (scan (fopen bom_line) True True (CHR ''|'') 3 (include_all []))
     = Inr (False, True, [(0, 5)]) \<and>
   outcome (scan (fopen bom_line) True True (CHR ''|'') 8 (include_all []))
     = Inr (False, True, [(3, 2)])"
  by (simp add: outcome_def bom_line_def BOM_def include_all_def model_defs)

subsection \<open>C4: the byte order mark\<close>

text \<open>
  C4, as the code has it. For a file read without a failure and shorter than \<open>2 ^ 63\<close>
  bytes, and a buffer of at least one byte: \<open>Build\<close> fails with the error of an empty
  input exactly when the file has no bytes (so a file of the three bytes of the byte
  order mark is not taken for empty); and when \<open>Build\<close> succeeds and the first block
  read holds more than three bytes and begins with the byte order mark, the mark is
  skipped: every descriptor passed to the emit routine starts at offset 3 or later.
\<close>

theorem BOM_handling:
  assumes "new_Indexer isPrimary (Some (fopen data)) skipSequenceIds numeric streamPrefix
      chunkSize bufferSize address = Inr s0"
    and "0 < bufferSize" and "length data < 2 ^ 63"
  shows "(Build corpus s0 = Inl InputFileEmpty) = (data = []) \<and>
     (\<forall>corpus' s' r. Build corpus s0 = Inr (corpus', s') \<longrightarrow> bom_seen bufferSize data \<longrightarrow>
        r \<in> set (ranges (calls s')) \<longrightarrow> 3 \<le> fst r)"
proof (intro conjI allI impI)
  show "(Build corpus s0 = Inl InputFileEmpty) = (data = [])"
    using assms by (rule Build_tiled(1))
next
  fix corpus' s' r
  assume run: "Build corpus s0 = Inr (corpus', s')" and bom: "bom_seen bufferSize data"
    and r: "r \<in> set (ranges (calls s'))"
  have "tiles 3 (int (length data)) (ranges (calls s'))"
    using Build_tiled(2) [OF assms run] bom by simp
  from tiles_lower [OF this r] show "3 \<le> fst r"
    by simp
qed

theorem BOM_handling_witness:
  "new_Indexer True (Some (fopen bom_line)) True True (CHR ''|'') 0 8 4096
     = Inr (indexer True True (CHR ''|'') 8 bom_line) \<and>
   (0::nat) < 8 \<and> length bom_line < 2 ^ 63 \<and> bom_seen 8 bom_line \<and>
   Build (include_all []) (indexer True True (CHR ''|'') 8 bom_line) \<noteq> Inl InputFileEmpty \<and>
   (\<exists>corpus' s'. Build (include_all []) (indexer True True (CHR ''|'') 8 bom_line)
        = Inr (corpus', s') \<and>
      ranges (calls s') = [(3, 2)] \<and> 3 \<le> fst (hd (ranges (calls s'))))"
proof -
  have h1: "new_Indexer True (Some (fopen bom_line)) True True (CHR ''|'') 0 8 4096
     = Inr (indexer True True (CHR ''|'') 8 bom_line)"
    by (rule new_Indexer_indexer)
  have h2: "(0::nat) < 8"
    by simp
  have h3: "length bom_line < 2 ^ 63"
    by (simp add: bom_line_def BOM_def)
  have bom: "bom_seen 8 bom_line"
    by (simp add: bom_seen_def bom_line_def BOM_def)
  note bh = BOM_handling [OF h1 h2 h3, of "include_all []"]
  have ne: "Build (include_all []) (indexer True True (CHR ''|'') 8 bom_line) \<noteq> Inl InputFileEmpty"
    using bh by (simp add: bom_line_def BOM_def)
  have "outcome (Build (include_all []) (indexer True True (CHR ''|'') 8 bom_line))
      = Inr (False, True, [(3, 2)])"
    by (simp add: outcome_def bom_line_def BOM_def include_all_def indexer_def model_defs)
  then obtain corpus' s' where
    run: "Build (include_all []) (indexer True True (CHR ''|'') 8 bom_line) = Inr (corpus', s')"
    and rg: "ranges (calls s') = [(3, 2)]"
    using outcome_Inr by fastforce
  have "hd (ranges (calls s')) \<in> set (ranges (calls s'))"
    using rg by simp
  with bh run bom have "3 \<le> fst (hd (ranges (calls s')))"
    by blast
  then show ?thesis
    using h1 h2 h3 bom ne run rg by blast
qed

text \<open>
  A file of the three bytes of the byte order mark and nothing else is not taken for
  empty, and the mark is not skipped: the key-grouped scan fails for want of a sequence id
  at offset 0, the line scan gives the range \<open>[0, 3)\<close>.
\<close>

theorem BOM_only_counterexample:
  "scan (fopen BOM) False True (CHR ''|'') 100 (include_all []) = Inl (ExpectedSequenceId 0) \<and>
   outcome (scan (fopen BOM) True True (CHR ''|'') 100 (include_all []))
     = Inr (False, True, [(0, 3)])"
  by (simp add: outcome_def BOM_def include_all_def model_defs)

subsection \<open>C5: the key-grouped example\<close>

text \<open>
  C5. In key-grouped numeric mode, with a filter that includes every key, whatever the
  registry holds and whatever the buffer capacity, the scan of \<open>1 x\<close>, \<open>1 y\<close>, \<open>2 z\<close>
  (each line ended by the row delimiter) makes two emit calls, with the keys 1 and 2, and
  the sink receives exactly two descriptors: the first over \<open>[0, 8)\<close> with two samples,
  tagged with the id the registry has for the key \<open>1\<close>, the second over \<open>[8, 12)\<close> with
  one sample, tagged with the id the registry has for the key \<open>2\<close>. The registry ends up
  with both keys interned, and the sizes add up to the length of the input.
\<close>

theorem keyed_numeric_example:
  assumes "new_Indexer isPrimary (Some (fopen three_lines)) False True streamPrefix chunkSize
      bufferSize address = Inr s0"
    and "0 < bufferSize" and "streamPrefix \<noteq> CHR ''1''"
  shows "\<exists>i1 i2.
     TryGet (interned (interned mapping ''1'') ''2'') ''1'' = Some i1 \<and>
     TryGet (interned (interned mapping ''1'') ''2'') ''2'' = Some i2 \<and>
     observed (Build (include_all mapping) s0)
       = Inr (include_all (interned (interned mapping ''1'') ''2''),
              \<lparr>m_chunkSize = chunkSize, m_primary = isPrimary, m_reserved = [12],
               m_sequences = [descriptor 0 8 2 i1, descriptor 8 4 1 i2]\<rparr>,
              [(1, descriptor 0 8 2 0), (2, descriptor 8 4 1 0)]) \<and>
     8 + 4 = int (length three_lines)"
proof -
  have big: "length three_lines < 2 ^ 63"
    by (simp add: three_lines_def)
  have nb: "\<not> bom_seen bufferSize three_lines"
    by (simp add: bom_seen_def three_lines_def BOM_def)
  let ?reg1 = "interned mapping ''1''"
  let ?reg2 = "interned ?reg1 ''2''"
  obtain i1 where i1: "id_of_key mapping ''1'' = (i1, ?reg1)" and t1: "TryGet ?reg1 ''1'' = Some i1"
    using id_of_key_interned by blast
  obtain i2 where i2: "id_of_key ?reg1 ''2'' = (i2, ?reg2)" and t2: "TryGet ?reg2 ''2'' = Some i2"
    using id_of_key_interned by blast
  have t1': "TryGet ?reg2 ''1'' = Some i1"
    using t1 by (simp add: TryGet_interned_other interned_mem)
  have "stream_Build False True True streamPrefix three_lines (include_all mapping)
      (new_Index chunkSize isPrimary)
     = Inr (include_all ?reg2,
            \<lparr>m_chunkSize = chunkSize, m_primary = isPrimary, m_reserved = [12],
             m_sequences = [descriptor 0 8 2 i1, descriptor 8 4 1 i2]\<rparr>,
            [(1, descriptor 0 8 2 0), (2, descriptor 8 4 1 0)])"
    using assms(3) i1 i2
    by (simp add: three_lines_def include_all_def new_Index_def descriptor_def
        stream_Build_def stream_BuildFromLines_def stream_BuildKeyed_def
        stream_keyed.simps read_key_def skip_line_def keychar_def acc_id_def
        acc_key_def resolve_def emit_def Reserve_def AddSequence_def empty_sd_def
        to_string_def decimal.simps digit_def isdigit_def ROW_DELIMITER_def Let_def)
  then have "observed (Build (include_all mapping) s0)
       = Inr (include_all ?reg2,
              \<lparr>m_chunkSize = chunkSize, m_primary = isPrimary, m_reserved = [12],
               m_sequences = [descriptor 0 8 2 i1, descriptor 8 4 1 i2]\<rparr>,
              [(1, descriptor 0 8 2 0), (2, descriptor 8 4 1 0)])"
    using Build_stream [OF assms(1,2) big, of "include_all mapping"] nb by simp
  moreover have "8 + 4 = int (length three_lines)"
    by (simp add: three_lines_def)
  ultimately show ?thesis
    using t1' t2 by blast
qed

text \<open>
  With a registry that starts empty and a buffer of four bytes: the registry ends up as
  \<open>1\<close>, \<open>2\<close>, and the two descriptors carry the ids 0 and 1.
\<close>

theorem keyed_numeric_example_witness:
  "new_Indexer True (Some (fopen three_lines)) False True (CHR ''|'') 0 4 4096
     = Inr (indexer False True (CHR ''|'') 4 three_lines) \<and>
   (0::nat) < 4 \<and> CHR ''|'' \<noteq> CHR ''1'' \<and>
   observed (Build (include_all []) (indexer False True (CHR ''|'') 4 three_lines))
     = Inr (include_all [''1'', ''2''],
            \<lparr>m_chunkSize = 0, m_primary = True, m_reserved = [12],
             m_sequences = [descriptor 0 8 2 0, descriptor 8 4 1 1]\<rparr>,
            [(1, descriptor 0 8 2 0), (2, descriptor 8 4 1 0)])"
proof -
  have h1: "new_Indexer True (Some (fopen three_lines)) False True (CHR ''|'') 0 4 4096
     = Inr (indexer False True (CHR ''|'') 4 three_lines)"
    by (rule new_Indexer_indexer)
  have h2: "(0::nat) < 4"
    by simp
  have h3: "CHR ''|'' \<noteq> CHR ''1''"
    by simp
  have reg: "interned (interned [] ''1'') ''2'' = [''1'', ''2'']"
    by (simp add: interned_def)
  have ids: "TryGet [''1'', ''2''] ''1'' = Some 0" "TryGet [''1'', ''2''] ''2'' = Some 1"
    by (simp_all add: TryGet_def)
  from keyed_numeric_example [OF h1 h2 h3, of "[]"] show ?thesis
    using h1 h2 h3 unfolding reg ids by auto
qed

subsection \<open>C6: the line-delimited example\<close>





subsection \<open>C7: an index that is not empty is left alone\<close>

text \<open>
  C7. When the index sink reports that it is not empty, \<open>Build\<close> returns at once: the
  corpus and the whole indexer are what they were, so the file has not been read, the
  sink has seen neither \<open>Reserve\<close> nor \<open>AddSequence\<close>, and the offsets, the buffer
  pointers and the exhausted flag are unchanged.
\<close>

theorem Build_noop_when_indexed:
  "\<not> IsEmpty (m_index s) \<Longrightarrow> Build corpus s = Inr (corpus, s)"
  by (simp add: Build_def)

theorem Build_noop_when_indexed_witness:
  "\<not> IsEmpty (m_index indexed_once) \<and>
   Build (include_all []) indexed_once = Inr (include_all [], indexed_once)"
proof -
  have h: "\<not> IsEmpty (m_index indexed_once)"
    by (simp add: IsEmpty_def indexed_once_def)
  from h Build_noop_when_indexed [OF h] show ?thesis
    by (rule conjI)
qed

subsection \<open>C8: reading a numeric key\<close>

text \<open>
  C8, as the code has it. In numeric mode, from a scan that is not exhausted,
  \<open>TryGetSequenceId\<close> reads the decimal digits at the read position. When a byte that is
  not a digit follows them in the file, it returns the value of the digits
  (\<open>id = id * 10 + digit\<close> from 0, in 64 bits), leaves the registry alone, stops at that
  byte without consuming it and reports \<open>found\<close> exactly when there was at least one
  digit. When the file ends first, the scan is exhausted and \<open>found\<close> is false, digits
  or not.
\<close>

theorem TryGetSequenceId_numeric:
  assumes "reading data a s" and "m_numericSequenceId s"
  shows "\<exists>ident s'.
     TryGetSequenceId mapping s
       = Inr (takeWhile isdigit (drop a data) \<noteq> []
                \<and> length (takeWhile isdigit (drop a data)) < length (drop a data),
              ident, mapping, s') \<and>
     (if length (takeWhile isdigit (drop a data)) < length (drop a data)
      then ident = decimal_value (takeWhile isdigit (drop a data)) \<and>
           reading data (a + length (takeWhile isdigit (drop a data))) s'
      else fin data s')"
proof -
  let ?ds = "takeWhile isdigit (drop a data)"
  have kc: "keychar True = isdigit"
    by (rule ext) (simp add: keychar_def)
  have ko: "key_ok data (a + length ?ds) s mapping (TryGetSequenceId mapping s)
      (read_key True False 0 [] mapping (drop a data))"
    using TryGetSequenceId_loop_stream [OF assms(1), of mapping False 0 "[]"] assms(2)
    by (simp add: TryGetSequenceId_def kc)
  show ?thesis
  proof (cases "length ?ds < length (drop a data)")
    case True
    then have "read_key True False 0 [] mapping (drop a data)
        = Some (?ds \<noteq> [], decimal_value ?ds, mapping)"
      by (simp add: read_key_def kc Let_def resolve_def acc_id_def decimal_value_def)
    then show ?thesis
      using ko True by (auto simp: key_ok_def)
  next
    case False
    then have "read_key True False 0 [] mapping (drop a data) = None"
      by (simp add: read_key_def kc Let_def)
    then show ?thesis
      using ko False by (auto simp: key_ok_def)
  qed
qed

theorem TryGetSequenceId_numeric_witness:
  "reading ''12 x'' 0 (first_block True 8 ''12 x'') \<and>
   m_numericSequenceId (first_block True 8 ''12 x'') \<and>
   (\<exists>s'. TryGetSequenceId [] (first_block True 8 ''12 x'') = Inr (True, 12, [], s') \<and>
      reading ''12 x'' 2 s')"
proof -
  have h1: "reading ''12 x'' 0 (first_block True 8 ''12 x'')"
    by (simp add: reading_def first_block_defs)
  have h2: "m_numericSequenceId (first_block True 8 ''12 x'')"
    by (simp add: first_block_defs)
  have ds: "takeWhile isdigit (drop 0 ''12 x'') = ''12''"
    by (simp add: isdigit_def)
  from TryGetSequenceId_numeric [OF h1 h2, of "[]"] show ?thesis
    using h1 h2 unfolding ds by (auto simp: decimal_value_def numeral_2_eq_2)
qed

text \<open>
  The claim wants \<open>found\<close> whenever a digit was read. On the file \<open>12\<close> both digits are
  read (the id is 12) and the file ends: \<open>found\<close> is false.
\<close>

theorem TryGetSequenceId_numeric_counterexample:
  "map_sum (\<lambda>e. e) (\<lambda>(found, ident, mapping, s). (found, ident, m_done s))
     (TryGetSequenceId [] (first_block True 8 ''12'')) = Inr (False, 12, True)"
  by (simp add: first_block_defs model_defs)

subsection \<open>C9: a failing read\<close>

text \<open>
  C9. The claim is that a read failure aborts the scan. \<open>RefillBuffer\<close> tests the result
  of \<open>fread\<close> against \<open>(size_t)-1\<close>, a value \<open>fread\<close> does not return for a failure: it
  returns a short count. On a four-byte file whose device fails at offset 2 the scan ends
  without an error, with the stream's error indicator set, the exhausted flag set and the
  first line as the only descriptor.
\<close>

theorem read_error_taken_for_end_of_file:
  "outcome (scan failing_file True True (CHR ''|'') 100 (include_all []))
     = Inr (True, True, [(0, 2)])"
  by (simp add: outcome_def failing_file_def include_all_def model_defs)

subsection \<open>C10: a textual key cut short by the end of the file\<close>

text \<open>
  C10. In textual mode, from a scan that is not exhausted, when no whitespace byte is
  left in the file, \<open>TryGetSequenceId\<close> returns false with the registry it was given:
  the bytes it has accumulated are not looked up and not added, and the scan is
  exhausted.
\<close>

theorem TryGetSequenceId_textual_eof:
  assumes "reading data a s" and "\<not> m_numericSequenceId s"
    and "\<forall>c\<in>set (drop a data). \<not> isspace c"
  shows "\<exists>ident s'. TryGetSequenceId mapping s = Inr (False, ident, mapping, s') \<and> fin data s'"
proof -
  have kc: "keychar False = (\<lambda>c. \<not> isspace c)"
    by (rule ext) (simp add: keychar_def)
  have tw: "takeWhile (\<lambda>c. \<not> isspace c) (drop a data) = drop a data"
    using assms(3) by (simp add: takeWhile_eq_all_conv)
  have "read_key False False 0 [] mapping (drop a data) = None"
    unfolding read_key_def Let_def kc tw by simp
  then show ?thesis
    using TryGetSequenceId_loop_stream [OF assms(1), of mapping False 0 "[]"] assms(2)
    by (auto simp: TryGetSequenceId_def key_ok_def)
qed

theorem TryGetSequenceId_textual_eof_witness:
  "reading ''abc'' 0 (first_block False 2 ''abc'') \<and>
   \<not> m_numericSequenceId (first_block False 2 ''abc'') \<and>
   \<not> isspace (CHR ''a'') \<and> \<not> isspace (CHR ''b'') \<and> \<not> isspace (CHR ''c'') \<and>
   (\<exists>ident s'. TryGetSequenceId [''k''] (first_block False 2 ''abc'')
       = Inr (False, ident, [''k''], s') \<and> fin ''abc'' s')"
proof -
  have h1: "reading ''abc'' 0 (first_block False 2 ''abc'')"
    by (simp add: reading_def first_block_defs)
  have h2: "\<not> m_numericSequenceId (first_block False 2 ''abc'')"
    by (simp add: first_block_defs)
  have h3: "\<not> isspace (CHR ''a'')" "\<not> isspace (CHR ''b'')" "\<not> isspace (CHR ''c'')"
    by (simp_all add: isspace_def)
  then have h4: "\<forall>c\<in>set (drop 0 ''abc''). \<not> isspace c"
    by simp
  from TryGetSequenceId_textual_eof [OF h1 h2 h4, of "[''k'']"] show ?thesis
    using h1 h2 h3 by blast
qed

end
